theory Spec2Isabelle
  imports Complex_Main "HOL-Library.AList"
begin

section \<open>Data model (app/agents/types.py, app/agents/base.py)\<close>

text \<open>
  Python values of type \<open>Any\<close> that travel through workflow inputs and provider outputs are
  JSON-like. A \<open>dict\<close> keeps its insertion order, so it is an association list; \<open>d[k] = v\<close>
  is \<open>AList.update k v d\<close> (in place when the key exists, appended otherwise) and
  \<open>d.get(k)\<close> is \<open>map_of d k\<close>. Floating point values are not part of the value model.
  A string is a list of characters with code points up to U+00FF (\<open>char\<close> has eight bits,
  read as Latin-1); text with higher code points is outside the model.
\<close>

datatype pyval =
    PNone
  | PBool bool
  | PInt int
  | PStr string
  | PList "pyval list"
  | PDict "(string \<times> pyval) list"

type_synonym pydict = "(string \<times> pyval) list"

datatype agent_type =
  TASK | PROJECT | GRANT | RESEARCH | CALENDAR | WRITING | PERSONNEL | PLANNER | ORCHESTRATOR

datatype agent_status = IDLE | PLANNING | EXECUTING | AWAITING_FEEDBACK | COMPLETED | FAILED

record agent_context =
  session_id :: string
  workspace_id :: string
  user_id :: string

record agent_handoff =
  from_agent :: agent_type
  to_agent :: agent_type
  reason :: string

text \<open>
  \<open>AgentResult\<close>, the terminal value of a provider's \<open>execute\<close>. Clock readings are not
  modelled, so \<open>created_at\<close> is left out.
\<close>

record agent_result =
  result_id :: string
  ar_status :: agent_status
  ar_output :: pydict
  ar_tool_calls :: "pyval list"
  ar_suggested_actions :: "pyval list"
  ar_handoff :: "agent_handoff option"
  ar_error :: "string option"
  ar_execution_time_ms :: int
  ar_tokens_used :: int

text \<open>
  A provider (\<open>BaseAgent\<close>). \<open>can_handle\<close> and \<open>should_handoff\<close> are functions of the request
  text and the context. The confidence is a Python float; only its order is used, so it is
  a real number here (no NaN). What \<open>execute\<close> does is decided by the text-generation
  backend; it is an oracle of the environment, see \<open>exec_oracle\<close> below.
\<close>

record agent =
  agent_kind :: agent_type
  agent_name :: string
  can_handle :: "string \<Rightarrow> agent_context \<Rightarrow> bool \<times> real"
  should_handoff :: "string \<Rightarrow> agent_context \<Rightarrow> agent_handoff option"

section \<open>Registry (app/agents/registry.py)\<close>

text \<open>\<open>self._agents\<close>: a dict from type to provider, in registration order.\<close>

type_synonym registry = "(agent_type \<times> agent) list"

definition register :: "registry \<Rightarrow> agent \<Rightarrow> registry" where
  "register agents a = AList.update (agent_kind a) a agents"

definition unregister :: "registry \<Rightarrow> agent_type \<Rightarrow> registry" where
  "unregister agents t = AList.delete t agents"

definition get :: "registry \<Rightarrow> agent_type \<Rightarrow> agent option" where
  "get agents t = map_of agents t"

definition get_all :: "registry \<Rightarrow> agent list" where
  "get_all agents = map snd agents"

text \<open>
  The loop of \<open>route_request\<close> over \<open>self._agents.items()\<close>, with the running
  \<open>(best_agent, best_confidence)\<close>.
\<close>

fun route_loop ::
  "string \<Rightarrow> agent_context \<Rightarrow> agent_type list \<Rightarrow> registry \<Rightarrow> agent option \<times> real
    \<Rightarrow> agent option \<times> real" where
  "route_loop request context exclude [] best = best"
| "route_loop request context exclude ((t, a) # rest) (best_agent, best_confidence) =
     (if t \<in> set exclude then route_loop request context exclude rest (best_agent, best_confidence)
      else
        (case can_handle a request context of (can, confidence) \<Rightarrow>
           if can \<and> confidence > best_confidence
           then route_loop request context exclude rest (Some a, confidence)
           else route_loop request context exclude rest (best_agent, best_confidence)))"

definition route_request ::
  "registry \<Rightarrow> string \<Rightarrow> agent_context \<Rightarrow> agent_type list option \<Rightarrow> agent option \<times> real" where
  "route_request agents request context exclude =
     route_loop request context (case exclude of None \<Rightarrow> [] | Some e \<Rightarrow> e) agents (None, 0)"

text \<open>
  The providers the loop looks at: not excluded, and \<open>can_handle\<close> answers true; in
  registration order.
\<close>

definition eligible ::
  "registry \<Rightarrow> string \<Rightarrow> agent_context \<Rightarrow> agent_type list \<Rightarrow> agent list" where
  "eligible agents request context exclude =
     map snd (filter (\<lambda>(t, a). t \<notin> set exclude \<and> fst (can_handle a request context)) agents)"

definition confidence_of :: "string \<Rightarrow> agent_context \<Rightarrow> agent \<Rightarrow> real" where
  "confidence_of request context a = snd (can_handle a request context)"

section \<open>Environment\<close>

text \<open>
  Exceptions are values. \<open>exc_str\<close> is \<open>str(e)\<close>. \<open>TimeoutError\<close> is what
  \<open>asyncio.wait_for\<close> raises when the timeout elapses (and what a provider may raise itself);
  \<open>OtherException\<close> stands for every other subclass of \<open>Exception\<close>.
\<close>

datatype py_exception =
    ValueError string
  | RuntimeError string
  | TimeoutError string
  | OtherException string

fun exc_str :: "py_exception \<Rightarrow> string" where
  "exc_str (ValueError m) = m"
| "exc_str (RuntimeError m) = m"
| "exc_str (TimeoutError m) = m"
| "exc_str (OtherException m) = m"

datatype exec_outcome = Returned agent_result | Raised py_exception

text \<open>
  What the code takes from outside:
  \<^item> \<open>execute n t prompt context\<close>: the outcome of awaiting \<open>agent.execute(prompt, context)\<close>
    on the provider of type \<open>t\<close>, when \<open>n\<close> calls of \<open>execute\<close> were made before; under
    \<open>asyncio.wait_for\<close> an elapsed timeout is the outcome \<open>Raised (TimeoutError [])\<close>;
  \<^item> \<open>uuid4 n\<close>: the text of the \<open>n\<close>-th \<open>uuid.uuid4()\<close>;
  \<^item> \<open>format_agent_type\<close>: how an f-string renders an \<open>AgentType\<close> member (the value
    before Python 3.11, the qualified name since);
  \<^item> \<open>str_container\<close>: \<open>str\<close> of a list or a dict;
  \<^item> \<open>str_field\<close>: what pydantic makes of a value given for a \<open>str\<close> field.
\<close>

record environment =
  execute :: "nat \<Rightarrow> agent_type \<Rightarrow> string \<Rightarrow> agent_context \<Rightarrow> exec_outcome"
  uuid4 :: "nat \<Rightarrow> string"
  format_agent_type :: "agent_type \<Rightarrow> string"
  str_container :: "pyval \<Rightarrow> string"
  str_field :: "pyval \<Rightarrow> py_exception + string"

fun agent_type_value :: "agent_type \<Rightarrow> string" where
  "agent_type_value TASK = ''task''"
| "agent_type_value PROJECT = ''project''"
| "agent_type_value GRANT = ''grant''"
| "agent_type_value RESEARCH = ''research''"
| "agent_type_value CALENDAR = ''calendar''"
| "agent_type_value WRITING = ''writing''"
| "agent_type_value PERSONNEL = ''personnel''"
| "agent_type_value PLANNER = ''planner''"
| "agent_type_value ORCHESTRATOR = ''orchestrator''"

fun agent_status_value :: "agent_status \<Rightarrow> string" where
  "agent_status_value IDLE = ''idle''"
| "agent_status_value PLANNING = ''planning''"
| "agent_status_value EXECUTING = ''executing''"
| "agent_status_value AWAITING_FEEDBACK = ''awaiting_feedback''"
| "agent_status_value COMPLETED = ''completed''"
| "agent_status_value FAILED = ''failed''"

text \<open>Decimal digits of an integer, as \<open>str\<close> prints them.\<close>

fun digits :: "nat \<Rightarrow> string" where
  "digits n =
     (if n < 10 then [''0123456789'' ! n]
      else digits (n div 10) @ [''0123456789'' ! (n mod 10)])"

declare digits.simps [simp del]

definition str_int :: "int \<Rightarrow> string" where
  "str_int i = (if i < 0 then CHR ''-'' # digits (nat (- i)) else digits (nat i))"

text \<open>\<open>str(v)\<close>.\<close>

fun py_str :: "environment \<Rightarrow> pyval \<Rightarrow> string" where
  "py_str env PNone = ''None''"
| "py_str env (PBool b) = (if b then ''True'' else ''False'')"
| "py_str env (PInt i) = str_int i"
| "py_str env (PStr s) = s"
| "py_str env (PList xs) = str_container env (PList xs)"
| "py_str env (PDict d) = str_container env (PDict d)"

text \<open>The truth value of \<open>v\<close> in a condition.\<close>

fun truthy :: "pyval \<Rightarrow> bool" where
  "truthy PNone = False"
| "truthy (PBool b) = b"
| "truthy (PInt i) = (i \<noteq> 0)"
| "truthy (PStr s) = (s \<noteq> [])"
| "truthy (PList xs) = (xs \<noteq> [])"
| "truthy (PDict d) = (d \<noteq> [])"

section \<open>Orchestrator state, chat and task paths (app/agents/orchestrator.py)\<close>

text \<open>
  The status literals, and \<open>WorkflowStepResult\<close>. The clock is not modelled:
  \<open>execution_time_ms\<close> of a step result and \<open>started_at\<close>, \<open>completed_at\<close> of an
  execution are left out.
\<close>

datatype run_status = Pending | Running | Completed | Failed | Skipped

record workflow_step_result =
  sr_step_id :: string
  sr_status :: run_status
  sr_output :: "pydict option"
  sr_error :: "string option"
  sr_agent_type :: agent_type

text \<open>\<open>WorkflowExecution\<close>; \<open>step_results\<close> is a dict in insertion order.\<close>

record workflow_execution =
  we_id :: string
  we_workflow_id :: string
  we_session_id :: string
  we_status :: run_status
  we_current_step :: "string option"
  step_results :: "(string \<times> workflow_step_result) list"
  we_error :: "string option"

text \<open>
  The orchestrator object with the part of the environment that moves: the log of the
  calls of \<open>execute\<close> made so far (provider type and prompt) and the number of uuids drawn.
\<close>

record orchestrator =
  agents :: registry
  active_workflows :: "(string \<times> workflow_execution) list"
  exec_log :: "(agent_type \<times> string) list"
  uuids_drawn :: nat

record chat_request =
  creq_session_id :: "string option"
  creq_message :: string
  creq_agent_type :: "agent_type option"

record chat_response =
  cres_session_id :: string
  cres_message_id :: string
  cres_content :: string
  cres_agent_type :: agent_type
  cres_tool_calls :: "pyval list"
  cres_suggested_actions :: "pyval list"
  cres_metadata :: pydict

record execute_task_request =
  treq_agent_type :: agent_type
  treq_task_type :: string
  treq_input :: pydict
  treq_async_execution :: bool

record execute_task_response =
  task_id :: string
  tres_status :: run_status
  tres_result :: "pydict option"
  tres_error :: "string option"

text \<open>One awaited call of \<open>agent.execute(prompt, context)\<close>: the outcome, and the call logged.\<close>

definition call_execute ::
  "environment \<Rightarrow> orchestrator \<Rightarrow> agent \<Rightarrow> string \<Rightarrow> agent_context
    \<Rightarrow> exec_outcome \<times> orchestrator" where
  "call_execute env st a prompt context =
     (execute env (length (exec_log st)) (agent_kind a) prompt context,
      st\<lparr>exec_log := exec_log st @ [(agent_kind a, prompt)]\<rparr>)"

definition draw_uuid :: "environment \<Rightarrow> orchestrator \<Rightarrow> string \<times> orchestrator" where
  "draw_uuid env st = (uuid4 env (uuids_drawn st), st\<lparr>uuids_drawn := Suc (uuids_drawn st)\<rparr>)"

text \<open>The first part of \<open>chat\<close>: the provider asked for, or the routed one, or the planner.\<close>

definition select_agent ::
  "environment \<Rightarrow> orchestrator \<Rightarrow> chat_request \<Rightarrow> agent_context \<Rightarrow> py_exception + agent" where
  "select_agent env st request context =
     (case creq_agent_type request of
        Some t \<Rightarrow>
          (case get (agents st) t of
             None \<Rightarrow> Inl (ValueError (''Unknown agent type: '' @ format_agent_type env t))
           | Some a \<Rightarrow> Inr a)
      | None \<Rightarrow>
          (case route_request (agents st) (creq_message request) context None of
             (Some a, confidence) \<Rightarrow> Inr a
           | (None, confidence) \<Rightarrow>
               (case get (agents st) PLANNER of
                  None \<Rightarrow> Inl (RuntimeError ''No agents available to handle request'')
                | Some a \<Rightarrow> Inr a)))"

text \<open>The handoff check before executing: at most one substitution.\<close>

definition apply_handoff :: "orchestrator \<Rightarrow> agent \<Rightarrow> string \<Rightarrow> agent_context \<Rightarrow> agent" where
  "apply_handoff st a message context =
     (case should_handoff a message context of
        None \<Rightarrow> a
      | Some handoff \<Rightarrow>
          (case get (agents st) (to_agent handoff) of
             None \<Rightarrow> a
           | Some target_agent \<Rightarrow> target_agent))"

text \<open>The body of the \<open>try\<close> of \<open>chat\<close> once \<open>execute\<close> has returned \<open>result\<close>.\<close>

definition build_response ::
  "environment \<Rightarrow> agent \<Rightarrow> agent_context \<Rightarrow> agent_result \<Rightarrow> py_exception + chat_response" where
  "build_response env a context result =
     (case (case map_of (ar_output result) ''response'' of
              None \<Rightarrow> Inr (py_str env (PDict (ar_output result)))
            | Some v \<Rightarrow> str_field env v) of
        Inl e \<Rightarrow> Inl e
      | Inr content \<Rightarrow>
          Inr \<lparr>cres_session_id = session_id context,
               cres_message_id = result_id result,
               cres_content = content,
               cres_agent_type = agent_kind a,
               cres_tool_calls = ar_tool_calls result,
               cres_suggested_actions = ar_suggested_actions result,
               cres_metadata =
                 [(''execution_time_ms'', PInt (ar_execution_time_ms result)),
                  (''tokens_used'', PInt (ar_tokens_used result)),
                  (''status'', PStr (agent_status_value (ar_status result)))]
                 @ (case ar_handoff result of
                      None \<Rightarrow> []
                    | Some h \<Rightarrow>
                        [(''handoff'',
                          PDict [(''to_agent'', PStr (agent_type_value (to_agent h))),
                                 (''reason'', PStr (reason h))])])\<rparr>)"

text \<open>The \<open>except Exception as e\<close> branch of \<open>chat\<close>.\<close>

definition error_response ::
  "environment \<Rightarrow> orchestrator \<Rightarrow> agent \<Rightarrow> agent_context \<Rightarrow> py_exception
    \<Rightarrow> chat_response \<times> orchestrator" where
  "error_response env st a context e =
     (case draw_uuid env st of (mid, st') \<Rightarrow>
        (\<lparr>cres_session_id = session_id context,
          cres_message_id = mid,
          cres_content = ''I encountered an error processing your request: '' @ exc_str e,
          cres_agent_type = agent_kind a,
          cres_tool_calls = [],
          cres_suggested_actions = [],
          cres_metadata = [(''error'', PStr (exc_str e))]\<rparr>, st'))"

definition chat ::
  "environment \<Rightarrow> orchestrator \<Rightarrow> chat_request \<Rightarrow> agent_context
    \<Rightarrow> (py_exception + chat_response) \<times> orchestrator" where
  "chat env st request context =
     (case select_agent env st request context of
        Inl e \<Rightarrow> (Inl e, st)
      | Inr a0 \<Rightarrow>
          (let a = apply_handoff st a0 (creq_message request) context in
           case call_execute env st a (creq_message request) context of
             (Raised e, st1) \<Rightarrow>
               (case error_response env st1 a context e of (r, st2) \<Rightarrow> (Inr r, st2))
           | (Returned result, st1) \<Rightarrow>
               (case build_response env a context result of
                  Inr r \<Rightarrow> (Inr r, st1)
                | Inl e \<Rightarrow>
                    (case error_response env st1 a context e of (r, st2) \<Rightarrow> (Inr r, st2)))))"

text \<open>
  \<open>execute_task\<close>. With \<open>async_execution\<close> the task is handed to the event loop and the
  call answers \<open>running\<close>; the detached run is not part of this model.
\<close>

definition execute_task ::
  "environment \<Rightarrow> orchestrator \<Rightarrow> execute_task_request \<Rightarrow> agent_context
    \<Rightarrow> (py_exception + execute_task_response) \<times> orchestrator" where
  "execute_task env st request context =
     (case get (agents st) (treq_agent_type request) of
        None \<Rightarrow>
          (case draw_uuid env st of (tid, st1) \<Rightarrow>
             (Inr \<lparr>task_id = tid, tres_status = Failed, tres_result = None,
                   tres_error = Some (''Unknown agent type: ''
                                       @ format_agent_type env (treq_agent_type request))\<rparr>,
              st1))
      | Some a \<Rightarrow>
          (case draw_uuid env st of (tid, st1) \<Rightarrow>
             if treq_async_execution request
             then (Inr \<lparr>task_id = tid, tres_status = Running, tres_result = None,
                        tres_error = None\<rparr>, st1)
             else
               (case call_execute env st1 a
                       (''Execute '' @ treq_task_type request @ '': ''
                          @ py_str env (PDict (treq_input request))) context of
                  (Returned result, st2) \<Rightarrow>
                    (Inr \<lparr>task_id = tid,
                          tres_status = (if ar_status result = COMPLETED then Completed else Failed),
                          tres_result = Some (ar_output result),
                          tres_error = ar_error result\<rparr>, st2)
                | (Raised e, st2) \<Rightarrow>
                    (Inr \<lparr>task_id = tid, tres_status = Failed, tres_result = None,
                          tres_error = Some (exc_str e)\<rparr>, st2))))"

section \<open>Workflow definitions (app/agents/types.py)\<close>

text \<open>The literals \<open>always\<close>, \<open>if\<close> and \<open>unless\<close> of \<open>WorkflowCondition.type\<close>.\<close>

datatype condition_type = CondAlways | CondIf | CondUnless

record workflow_condition =
  wc_type :: condition_type
  wc_expression :: "string option"
  wc_value :: "pyval option"

datatype on_error_policy = OnFail | OnSkip | OnFallback

datatype error_handling_mode = FailFast | Continue | Retry | Fallback

record workflow_step =
  ws_id :: string
  ws_name :: string
  ws_agent :: agent_type
  ws_action :: string
  ws_input :: pydict
  depends_on :: "string list"
  ws_condition :: "workflow_condition option"
  ws_timeout :: "int option"
  retries :: int
  on_error :: on_error_policy
  fallback_agent :: "agent_type option"

record workflow_definition =
  wd_id :: string
  wd_name :: string
  wd_steps :: "workflow_step list"
  error_handling :: error_handling_mode
  wd_timeout :: "int option"

record orchestrate_request =
  oreq_workflow :: workflow_definition
  oreq_input :: pydict

record orchestrate_response =
  execution_id :: string
  ores_status :: run_status
  ores_results :: "(string \<times> workflow_step_result) list"
  ores_error :: "string option"

section \<open>Strings\<close>

text \<open>
  \<open>s.startswith(p)\<close>, \<open>s.split(c)\<close> and \<open>s.strip()\<close>. \<open>is_space\<close> is \<open>str.isspace\<close> on one
  character: of the code points up to U+00FF these are U+0009 to U+000D, U+001C to
  U+001F, U+0020, U+0085 and U+00A0.
\<close>

definition starts_with :: "string \<Rightarrow> string \<Rightarrow> bool" where
  "starts_with p s = (take (length p) s = p)"

fun split_on :: "char \<Rightarrow> string \<Rightarrow> string list" where
  "split_on c [] = [[]]"
| "split_on c (x # xs) =
     (if x = c then [] # split_on c xs
      else (case split_on c xs of [] \<Rightarrow> [[x]] | p # ps \<Rightarrow> (x # p) # ps))"

definition is_space :: "char \<Rightarrow> bool" where
  "is_space c = (c \<in> set [CHR 0x09, CHR 0x0A, CHR 0x0B, CHR 0x0C, CHR 0x0D,
                            CHR 0x1C, CHR 0x1D, CHR 0x1E, CHR 0x1F, CHR 0x20,
                            CHR 0x85, CHR 0xA0])"

definition strip :: "string \<Rightarrow> string" where
  "strip s = rev (dropWhile is_space (rev (dropWhile is_space s)))"

text \<open>
  One attempt of the pattern \<open>\{\{([^}]+)\}\}\<close> at the head of the text: two opening
  braces, the longest run of characters other than the closing brace, which must not be
  empty, and two closing braces. The answer is group 1 and the text after the match.
\<close>

definition match_template :: "string \<Rightarrow> (string \<times> string) option" where
  "match_template s =
     (if starts_with ''{{'' s then
        (let body = takeWhile (\<lambda>c. c \<noteq> CHR ''}'') (drop 2 s);
             after = dropWhile (\<lambda>c. c \<noteq> CHR ''}'') (drop 2 s)
         in if body \<noteq> [] \<and> starts_with ''}}'' after then Some (body, drop 2 after) else None)
      else None)"

lemma match_template_shorter:
  "match_template s = Some (body, rest) \<Longrightarrow> length rest < length s"
proof -
  assume m: "match_template s = Some (body, rest)"
  have "length (dropWhile (\<lambda>c. c \<noteq> CHR ''}'') (drop 2 s)) \<le> length (drop 2 s)"
    by (rule length_dropWhile_le)
  moreover from m have "s \<noteq> []" and "rest = drop 2 (dropWhile (\<lambda>c. c \<noteq> CHR ''}'') (drop 2 s))"
    by (auto simp: match_template_def starts_with_def Let_def split: if_splits)
  ultimately show ?thesis by (cases s) auto
qed

text \<open>
  \<open>re.sub(pattern, replacer, value)\<close>: the matches are looked for from left to right, a
  match is replaced by what the replacer makes of its group 1, and the search goes on
  behind the match; a character at which no match starts is copied.
\<close>

function re_sub :: "(string \<Rightarrow> string) \<Rightarrow> string \<Rightarrow> string" where
  "re_sub f [] = []"
| "re_sub f (c # cs) =
     (case match_template (c # cs) of
        Some (body, rest) \<Rightarrow> f body @ re_sub f rest
      | None \<Rightarrow> c # re_sub f cs)"
  by pat_completeness auto
termination
  by (relation "measure (\<lambda>(f, s). length s)") (auto dest: match_template_shorter)

declare re_sub.simps(2) [simp del]

text \<open>
  Where a template starts in a text, the search has not been taken over by an earlier
  opening: the part of the text before it that follows its last closing brace holds no
  two opening braces in a row and does not end with an opening brace.
\<close>

fun ends_open :: "string \<Rightarrow> bool" where
  "ends_open [] = False"
| "ends_open [c] = (c = CHR ''{'')"
| "ends_open (c # d # cs) = ((c = CHR ''{'' \<and> d = CHR ''{'') \<or> ends_open (d # cs))"

definition after_last_close :: "string \<Rightarrow> string" where
  "after_last_close s = rev (takeWhile (\<lambda>c. c \<noteq> CHR ''}'') (rev s))"

definition template_reached :: "string \<Rightarrow> bool" where
  "template_reached pre = (\<not> ends_open (after_last_close pre))"

section \<open>Conditions and references (app/agents/orchestrator.py)\<close>

definition evaluate_condition ::
  "workflow_condition \<Rightarrow> workflow_execution \<Rightarrow> pydict \<Rightarrow> bool" where
  "evaluate_condition condition execution input =
     (if wc_type condition = CondAlways then True
      else
        (case wc_expression condition of
           None \<Rightarrow> True
         | Some expression \<Rightarrow>
             if expression = [] then True
             else if starts_with ''steps.'' expression then
               (let parts = split_on CHR ''.'' expression;
                    step_id = parts ! 1
                in case map_of (step_results execution) step_id of
                     Some result \<Rightarrow>
                       if wc_type condition = CondIf then sr_status result = Completed
                       else sr_status result \<noteq> Completed
                   | None \<Rightarrow> True)
             else True))"

fun dependencies_loop :: "string list \<Rightarrow> (string \<times> workflow_step_result) list \<Rightarrow> bool" where
  "dependencies_loop [] results = True"
| "dependencies_loop (dep_id # rest) results =
     (case map_of results dep_id of
        None \<Rightarrow> False
      | Some r \<Rightarrow>
          if sr_status r \<notin> set [Completed, Skipped] then False
          else dependencies_loop rest results)"

definition dependencies_satisfied :: "workflow_step \<Rightarrow> workflow_execution \<Rightarrow> bool" where
  "dependencies_satisfied step execution =
     dependencies_loop (depends_on step) (step_results execution)"

text \<open>The walk through the output along \<open>parts[3:]\<close>; it stops at a value that is no dict.\<close>

fun navigate :: "pyval \<Rightarrow> string list \<Rightarrow> pyval" where
  "navigate current [] = current"
| "navigate (PDict d) (part # parts) =
     navigate (case map_of d part of None \<Rightarrow> PNone | Some v \<Rightarrow> v) parts"
| "navigate current (part # parts) = current"

text \<open>The \<open>prev.\<close> branch: the recorded results from the last one backwards.\<close>

fun prev_loop :: "environment \<Rightarrow> (string \<times> workflow_step_result) list \<Rightarrow> string \<Rightarrow> string" where
  "prev_loop env [] key = []"
| "prev_loop env ((step_id, result) # rest) key =
     (case sr_output result of
        Some output \<Rightarrow>
          if sr_status result = Completed \<and> output \<noteq> []
          then py_str env (case map_of output key of None \<Rightarrow> PStr [] | Some v \<Rightarrow> v)
          else prev_loop env rest key
      | None \<Rightarrow> prev_loop env rest key)"

text \<open>\<open>replacer\<close>, given group 1 of the match; group 0 is the match itself.\<close>

definition replacer ::
  "environment \<Rightarrow> workflow_execution \<Rightarrow> pydict \<Rightarrow> string \<Rightarrow> string" where
  "replacer env execution workflow_input body =
     (let ref = strip body in
      if starts_with ''input.'' ref then
        py_str env (case map_of workflow_input (drop 6 ref) of None \<Rightarrow> PStr [] | Some v \<Rightarrow> v)
      else if starts_with ''steps.'' ref then
        (let parts = split_on CHR ''.'' ref;
             step_id = parts ! 1
         in case map_of (step_results execution) step_id of
              None \<Rightarrow> []
            | Some result \<Rightarrow>
                (case sr_output result of
                   None \<Rightarrow> []
                 | Some output \<Rightarrow>
                     if output = [] then []
                     else
                       (let current = navigate (PDict output) (drop 3 parts)
                        in if truthy current then py_str env current else [])))
      else if starts_with ''prev.'' ref then
        prev_loop env (rev (step_results execution)) (drop 5 ref)
      else ''{{'' @ body @ ''}}'')"

fun resolve_value ::
  "environment \<Rightarrow> workflow_execution \<Rightarrow> pydict \<Rightarrow> pyval \<Rightarrow> pyval" where
  "resolve_value env execution workflow_input (PStr s) =
     PStr (re_sub (replacer env execution workflow_input) s)"
| "resolve_value env execution workflow_input (PDict d) =
     PDict (map (\<lambda>kv. (fst kv, resolve_value env execution workflow_input (snd kv))) d)"
| "resolve_value env execution workflow_input (PList xs) =
     PList (map (resolve_value env execution workflow_input) xs)"
| "resolve_value env execution workflow_input v = v"

definition resolve_references ::
  "environment \<Rightarrow> pydict \<Rightarrow> workflow_execution \<Rightarrow> pydict \<Rightarrow> pyval" where
  "resolve_references env input execution workflow_input =
     resolve_value env execution workflow_input (PDict input)"

text \<open>
  A place in a nested value: through a dict by key, through a list by index.
  \<open>lookup_path v p\<close> is the value of \<open>v\<close> at the place \<open>p\<close>, if there is one.
\<close>

datatype path_elem = Key string | Index nat

fun lookup_path :: "pyval \<Rightarrow> path_elem list \<Rightarrow> pyval option" where
  "lookup_path v [] = Some v"
| "lookup_path (PDict d) (Key k # p) =
     (case map_of d k of None \<Rightarrow> None | Some v \<Rightarrow> lookup_path v p)"
| "lookup_path (PList xs) (Index i # p) =
     (if i < length xs then lookup_path (xs ! i) p else None)"
| "lookup_path v (e # p) = None"

text \<open>
  A walk along keys that succeeds: every key is found in a dict. (\<open>navigate\<close> goes on
  with \<open>None\<close> after a missing key and stops at a value that is no dict.)
\<close>

fun strict_walk :: "pyval \<Rightarrow> string list \<Rightarrow> pyval option" where
  "strict_walk current [] = Some current"
| "strict_walk (PDict d) (k # ks) =
     (case map_of d k of None \<Rightarrow> None | Some v \<Rightarrow> strict_walk v ks)"
| "strict_walk current (k # ks) = None"

text \<open>Every recorded result that is not completed has no output.\<close>

definition outputs_only_completed :: "workflow_execution \<Rightarrow> bool" where
  "outputs_only_completed execution =
     list_all (\<lambda>(sid, r). sr_status r = Completed \<or> sr_output r = None)
       (step_results execution)"

section \<open>Step execution with retries\<close>

fun is_timeout :: "py_exception \<Rightarrow> bool" where
  "is_timeout (TimeoutError m) = True"
| "is_timeout e = False"

definition step_result ::
  "workflow_step \<Rightarrow> run_status \<Rightarrow> pydict option \<Rightarrow> string option \<Rightarrow> workflow_step_result" where
  "step_result step status output error =
     \<lparr>sr_step_id = ws_id step, sr_status = status, sr_output = output, sr_error = error,
      sr_agent_type = ws_agent step\<rparr>"

text \<open>\<open>result.error or "Agent execution failed"\<close>.\<close>

definition error_or_default :: "string option \<Rightarrow> string" where
  "error_or_default e =
     (case e of None \<Rightarrow> ''Agent execution failed''
      | Some m \<Rightarrow> if m = [] then ''Agent execution failed'' else m)"

text \<open>
  The \<open>while retries >= 0\<close> loop inside the outer \<open>try\<close> of \<open>_execute_workflow_step\<close>. Each
  attempt awaits \<open>execute\<close> under \<open>asyncio.wait_for\<close> (with the timeout
  \<open>step.timeout or 300\<close>, whose elapsing is the outcome \<open>Raised (TimeoutError [])\<close> of the
  environment). Any other exception leaves the loop through the outer \<open>except\<close>.
\<close>

function retry_loop ::
  "environment \<Rightarrow> orchestrator \<Rightarrow> agent \<Rightarrow> string \<Rightarrow> agent_context \<Rightarrow> workflow_step
    \<Rightarrow> int \<Rightarrow> string option \<Rightarrow> workflow_step_result \<times> orchestrator" where
  "retry_loop env st a prompt context step retries_left last_error =
     (if retries_left \<ge> 0 then
        (case call_execute env st a prompt context of
           (Returned result, st1) \<Rightarrow>
             if ar_status result = COMPLETED
             then (step_result step Completed (Some (ar_output result)) None, st1)
             else retry_loop env st1 a prompt context step (retries_left - 1)
                    (Some (error_or_default (ar_error result)))
         | (Raised e, st1) \<Rightarrow>
             if is_timeout e
             then retry_loop env st1 a prompt context step (retries_left - 1)
                    (Some ''Step timed out'')
             else (step_result step Failed None (Some (exc_str e)), st1))
      else (step_result step Failed None last_error, st))"
  by pat_completeness auto
termination
  by (relation "measure (\<lambda>(env, st, a, prompt, context, step, r, le). nat (r + 1))") auto

declare retry_loop.simps [simp del]

definition step_prompt :: "environment \<Rightarrow> workflow_step \<Rightarrow> pyval \<Rightarrow> string" where
  "step_prompt env step resolved_input =
     ''Execute action '' @ [CHR 0x27] @ ws_action step @ [CHR 0x27] @ '' with parameters: ''
       @ py_str env resolved_input"

definition execute_workflow_step ::
  "environment \<Rightarrow> orchestrator \<Rightarrow> workflow_step \<Rightarrow> workflow_execution \<Rightarrow> agent_context
    \<Rightarrow> pydict \<Rightarrow> workflow_step_result \<times> orchestrator" where
  "execute_workflow_step env st step execution context workflow_input =
     (case get (agents st) (ws_agent step) of
        None \<Rightarrow>
          (step_result step Failed None
             (Some (''Unknown agent: '' @ format_agent_type env (ws_agent step))), st)
      | Some a \<Rightarrow>
          (let resolved_input = resolve_references env (ws_input step) execution workflow_input;
               prompt = step_prompt env step resolved_input
           in retry_loop env st a prompt context step (retries step) None))"

text \<open>
  An attempt that does not complete: a result whose status is not completed, or a
  timeout. \<open>attempt_error\<close> is the \<open>last_error\<close> such an attempt leaves.
\<close>

definition attempt_failed :: "exec_outcome \<Rightarrow> bool" where
  "attempt_failed out =
     (case out of Returned r \<Rightarrow> ar_status r \<noteq> COMPLETED | Raised e \<Rightarrow> is_timeout e)"

definition attempt_error :: "exec_outcome \<Rightarrow> string" where
  "attempt_error out =
     (case out of Returned r \<Rightarrow> error_or_default (ar_error r) | Raised e \<Rightarrow> ''Step timed out'')"

section \<open>Ordering the steps\<close>

text \<open>
  The two dict comprehensions of \<open>_topological_sort\<close>; a repeated step id keeps its first
  position and takes the last value.
\<close>

definition graph_of :: "workflow_step list \<Rightarrow> (string \<times> string list) list" where
  "graph_of steps = fold (\<lambda>s g. AList.update (ws_id s) (depends_on s) g) steps []"

definition in_degree_of :: "workflow_step list \<Rightarrow> (string \<times> int) list" where
  "in_degree_of steps =
     fold (\<lambda>s g. AList.update (ws_id s) (int (length (depends_on s))) g) steps []"

text \<open>
  The \<open>for step_id, deps in graph.items()\<close> loop for the dequeued \<open>current\<close>.
  \<open>in_degree\<close> has the keys of \<open>graph\<close> (lemmas \<open>in_degree_of_graph\<close> and
  \<open>relax_keys\<close> below), so \<open>in_degree[step_id]\<close> finds its key; the branch for a
  missing key is never taken and leaves the state as it is.
\<close>

fun relax ::
  "string \<Rightarrow> (string \<times> string list) list \<Rightarrow> (string \<times> int) list \<times> string list
    \<Rightarrow> (string \<times> int) list \<times> string list" where
  "relax current [] (in_degree, queue) = (in_degree, queue)"
| "relax current ((step_id, deps) # rest) (in_degree, queue) =
     (if current \<in> set deps then
        (case map_of in_degree step_id of
           Some d \<Rightarrow>
             if d - 1 = 0
             then relax current rest (AList.update step_id (d - 1) in_degree, queue @ [step_id])
             else relax current rest (AList.update step_id (d - 1) in_degree, queue)
         | None \<Rightarrow> relax current rest (in_degree, queue))
      else relax current rest (in_degree, queue))"

definition positive_entries :: "(string \<times> int) list \<Rightarrow> nat" where
  "positive_entries in_degree = length (filter (\<lambda>(k, d). 0 < d) in_degree)"

lemma positive_entries_update:
  "map_of in_degree k = Some d \<Longrightarrow>
     positive_entries (AList.update k (d - 1) in_degree) + (if d - 1 = 0 then 1 else 0)
       = positive_entries in_degree"
  by (induction in_degree) (auto simp: positive_entries_def)

lemma relax_measure:
  "relax current items (in_degree, queue) = (in_degree', queue') \<Longrightarrow>
     positive_entries in_degree' + length queue' = positive_entries in_degree + length queue"
proof (induction items arbitrary: in_degree queue)
  case Nil
  then show ?case by simp
next
  case (Cons item rest)
  obtain step_id deps where item: "item = (step_id, deps)" by (cases item)
  show ?case
  proof (cases "current \<in> set deps")
    case False
    with Cons item show ?thesis by simp
  next
    case True
    show ?thesis
    proof (cases "map_of in_degree step_id")
      case None
      with True Cons item show ?thesis by simp
    next
      case (Some d)
      note pe = positive_entries_update[OF Some]
      show ?thesis
      proof (cases "d - 1 = 0")
        case z: True
        with True Some Cons.prems item
        have "relax current rest (AList.update step_id (d - 1) in_degree, queue @ [step_id])
                = (in_degree', queue')" by simp
        from Cons.IH[OF this] pe z show ?thesis by simp
      next
        case nz: False
        with True Some Cons.prems item
        have "relax current rest (AList.update step_id (d - 1) in_degree, queue)
                = (in_degree', queue')" by simp
        from Cons.IH[OF this] pe nz show ?thesis by simp
      qed
    qed
  qed
qed

text \<open>The \<open>while queue\<close> loop: \<open>queue.pop(0)\<close>, \<open>result.append(current)\<close>, the inner loop.\<close>

function kahn_loop ::
  "(string \<times> string list) list \<Rightarrow> (string \<times> int) list \<times> string list \<Rightarrow> string list
    \<Rightarrow> string list" where
  "kahn_loop graph (in_degree, []) result = result"
| "kahn_loop graph (in_degree, current # queue) result =
     kahn_loop graph (relax current graph (in_degree, queue)) (result @ [current])"
  by pat_completeness auto
termination
proof (relation "measure (\<lambda>(graph, (in_degree, queue), result).
                   positive_entries in_degree + length queue)")
  show "wf (measure (\<lambda>(graph, (in_degree, queue), result).
                   positive_entries in_degree + length queue))" by simp
next
  fix graph :: "(string \<times> string list) list" and in_degree :: "(string \<times> int) list"
    and current :: string and queue result :: "string list"
  obtain i' q' where r: "relax current graph (in_degree, queue) = (i', q')"
    by (cases "relax current graph (in_degree, queue)")
  from relax_measure[OF r]
  show "((graph, relax current graph (in_degree, queue), result @ [current]),
         (graph, (in_degree, current # queue), result))
        \<in> measure (\<lambda>(graph, (in_degree, queue), result).
                   positive_entries in_degree + length queue)"
    by (simp add: r)
qed

definition topological_sort :: "workflow_step list \<Rightarrow> py_exception + string list" where
  "topological_sort steps =
     (let graph = graph_of steps;
          in_degree = in_degree_of steps;
          queue = map fst (filter (\<lambda>(sid, degree). degree = 0) in_degree);
          result = kahn_loop graph (in_degree, queue) []
      in if length result \<noteq> length steps
         then Inl (ValueError ''Circular dependency detected in workflow steps'')
         else Inr result)"

text \<open>
  Notions for the correctness of the ordering. \<open>graph_from g steps\<close> is the dict comprehension
  started from \<open>g\<close>; \<open>dependents c g\<close> are the ids whose dependency list holds \<open>c\<close>;
  \<open>deps_of g k\<close> is the dependency list of \<open>k\<close>; \<open>deps_first g res\<close> says that every id of
  \<open>res\<close> comes after all its dependencies; \<open>kahn_inv\<close> is the invariant of the
  \<open>while queue\<close> loop: result and queue hold distinct ids of the graph, the in-degree of
  an id is the length of its dependency list minus the number of its dependencies in the
  result, an id is in the result or the queue exactly when its in-degree is 0, and the
  result has dependencies first. \<open>dependency_edges\<close> are the edges from a dependency to
  the step that names it, and \<open>comes_after order k d\<close> says that \<open>d\<close> stands before \<open>k\<close>.
\<close>

definition graph_from :: "(string \<times> string list) list \<Rightarrow> workflow_step list \<Rightarrow> (string \<times> string list) list" where
  "graph_from g steps = fold (\<lambda>s g. AList.update (ws_id s) (depends_on s) g) steps g"

definition dependents :: "string \<Rightarrow> (string \<times> string list) list \<Rightarrow> string set" where
  "dependents c items = {k. \<exists>deps. (k, deps) \<in> set items \<and> c \<in> set deps}"

definition deps_of :: "(string \<times> string list) list \<Rightarrow> string \<Rightarrow> string list" where
  "deps_of g k = (case map_of g k of Some ds \<Rightarrow> ds | None \<Rightarrow> [])"

definition deps_first :: "(string \<times> string list) list \<Rightarrow> string list \<Rightarrow> bool" where
  "deps_first g res = (\<forall>pre k post. res = pre @ k # post \<longrightarrow> set (deps_of g k) \<subseteq> set pre)"

definition kahn_inv ::
  "(string \<times> string list) list \<Rightarrow> (string \<times> int) list \<Rightarrow> string list \<Rightarrow> string list \<Rightarrow> bool" where
  "kahn_inv g ind q res =
     (distinct (res @ q) \<and> set (res @ q) \<subseteq> fst ` set g \<and>
      (\<forall>k \<in> fst ` set g.
         map_of ind k = Some (int (length (deps_of g k)) - int (card (set (deps_of g k) \<inter> set res)))) \<and>
      (\<forall>k \<in> fst ` set g. k \<in> set (res @ q) \<longleftrightarrow> map_of ind k = Some 0) \<and>
      deps_first g res)"

definition dependency_edges :: "workflow_step list \<Rightarrow> (string \<times> string) set" where
  "dependency_edges steps = {(d, ws_id s) | s d. s \<in> set steps \<and> d \<in> set (depends_on s)}"

definition comes_after :: "string list \<Rightarrow> string \<Rightarrow> string \<Rightarrow> bool" where
  "comes_after order k d = (\<exists>pre post. order = pre @ k # post \<and> d \<in> set pre)"

section \<open>Workflow orchestration\<close>

text \<open>\<open>str\<close> of an optional text, as an f-string renders it.\<close>

definition str_opt :: "string option \<Rightarrow> string" where
  "str_opt e = (case e of None \<Rightarrow> ''None'' | Some m \<Rightarrow> m)"

definition record_result ::
  "string \<Rightarrow> workflow_step_result \<Rightarrow> workflow_execution \<Rightarrow> workflow_execution" where
  "record_result sid r execution =
     execution\<lparr>step_results := AList.update sid r (step_results execution)\<rparr>"

text \<open>The step synthesized for the fallback provider; the other fields take their defaults.\<close>

definition fallback_step :: "workflow_step \<Rightarrow> agent_type \<Rightarrow> workflow_step" where
  "fallback_step step fb =
     \<lparr>ws_id = ws_id step @ ''_fallback'',
      ws_name = ws_name step @ '' (fallback)'',
      ws_agent = fb,
      ws_action = ws_action step,
      ws_input = ws_input step,
      depends_on = [],
      ws_condition = None,
      ws_timeout = None,
      retries = 0,
      on_error = OnFail,
      fallback_agent = None\<rparr>"

text \<open>
  What follows \<open>execution.step_results[step_id] = step_result\<close> in the loop body: the
  handling of a failed step. The first component is the exception raised, if any.
\<close>

definition handle_step_failure ::
  "environment \<Rightarrow> pydict \<Rightarrow> agent_context \<Rightarrow> workflow_step \<Rightarrow> workflow_step_result
    \<Rightarrow> workflow_execution \<times> orchestrator
    \<Rightarrow> py_exception option \<times> workflow_execution \<times> orchestrator" where
  "handle_step_failure env workflow_input context step result es =
     (case es of (execution, st) \<Rightarrow>
        if sr_status result = Failed then
          (if on_error step = OnFail
           then (Some (RuntimeError (''Step failed: '' @ ws_id step @ '' - ''
                                      @ str_opt (sr_error result))), execution, st)
           else
             (case fallback_agent step of
                Some fb \<Rightarrow>
                  if on_error step = OnFallback then
                    (case execute_workflow_step env st (fallback_step step fb) execution context
                            workflow_input of
                       (fallback_result, st') \<Rightarrow>
                         (None, record_result (ws_id step) fallback_result execution, st'))
                  else (None, execution, st)
              | None \<Rightarrow> (None, execution, st)))
        else (None, execution, st))"

text \<open>
  One turn of the \<open>for step_id in step_order\<close> loop. \<open>next(...)\<close> on a step id that no step
  has raises \<open>StopIteration\<close>, which a coroutine turns into a \<open>RuntimeError\<close>.
\<close>

definition run_step ::
  "environment \<Rightarrow> workflow_definition \<Rightarrow> pydict \<Rightarrow> agent_context \<Rightarrow> string
    \<Rightarrow> workflow_execution \<times> orchestrator
    \<Rightarrow> py_exception option \<times> workflow_execution \<times> orchestrator" where
  "run_step env workflow workflow_input context step_id es =
     (case es of (execution0, st) \<Rightarrow>
        (case find (\<lambda>s. ws_id s = step_id) (wd_steps workflow) of
           None \<Rightarrow> (Some (RuntimeError ''coroutine raised StopIteration''), execution0, st)
         | Some step \<Rightarrow>
             (let execution = execution0\<lparr>we_current_step := Some step_id\<rparr> in
              if \<not> dependencies_satisfied step execution then
                (if error_handling workflow = FailFast
                 then (Some (RuntimeError (''Dependencies not satisfied for step: '' @ step_id)),
                       execution, st)
                 else (None, execution, st))
              else if (case ws_condition step of
                         None \<Rightarrow> False
                       | Some c \<Rightarrow> \<not> evaluate_condition c execution workflow_input) then
                (None, record_result step_id (step_result step Skipped None None) execution, st)
              else
                (case execute_workflow_step env st step execution context workflow_input of
                   (result, st1) \<Rightarrow>
                     handle_step_failure env workflow_input context step result
                       (record_result step_id result execution, st1)))))"

fun orchestrate_loop ::
  "environment \<Rightarrow> workflow_definition \<Rightarrow> pydict \<Rightarrow> agent_context \<Rightarrow> string list
    \<Rightarrow> workflow_execution \<times> orchestrator
    \<Rightarrow> py_exception option \<times> workflow_execution \<times> orchestrator" where
  "orchestrate_loop env workflow workflow_input context [] es = (None, es)"
| "orchestrate_loop env workflow workflow_input context (step_id # rest) es =
     (case run_step env workflow workflow_input context step_id es of
        (Some e, es') \<Rightarrow> (Some e, es')
      | (None, es') \<Rightarrow> orchestrate_loop env workflow workflow_input context rest es')"

text \<open>The body of the \<open>try\<close> of \<open>orchestrate\<close>.\<close>

definition orchestrate_body ::
  "environment \<Rightarrow> orchestrate_request \<Rightarrow> agent_context \<Rightarrow> workflow_execution \<times> orchestrator
    \<Rightarrow> py_exception option \<times> workflow_execution \<times> orchestrator" where
  "orchestrate_body env request context es =
     (case topological_sort (wd_steps (oreq_workflow request)) of
        Inl e \<Rightarrow> (Some e, es)
      | Inr step_order \<Rightarrow>
          orchestrate_loop env (oreq_workflow request) (oreq_input request) context step_order es)"

text \<open>
  \<open>orchestrate\<close>: the execution record is put into \<open>_active_workflows\<close>, the body runs,
  the \<open>except\<close> branch turns an exception into a failed response, and the \<open>finally\<close> block
  deletes the record. The record in the map is the object the body mutates; the model
  keeps the local copy and stores the initial one.
\<close>

definition orchestrate ::
  "environment \<Rightarrow> orchestrator \<Rightarrow> orchestrate_request \<Rightarrow> agent_context
    \<Rightarrow> orchestrate_response \<times> orchestrator" where
  "orchestrate env st request context =
     (case draw_uuid env st of (eid, st0) \<Rightarrow>
        (let workflow = oreq_workflow request;
             execution =
               \<lparr>we_id = eid, we_workflow_id = wd_id workflow, we_session_id = session_id context,
                we_status = Running, we_current_step = None, step_results = [],
                we_error = None\<rparr>;
             st1 = st0\<lparr>active_workflows := AList.update eid execution (active_workflows st0)\<rparr>
         in case orchestrate_body env request context (execution, st1) of
              (None, execution', st2) \<Rightarrow>
                (\<lparr>execution_id = eid, ores_status = Completed,
                  ores_results = step_results execution', ores_error = None\<rparr>,
                 st2\<lparr>active_workflows := AList.delete eid (active_workflows st2)\<rparr>)
            | (Some e, execution', st2) \<Rightarrow>
                (\<lparr>execution_id = eid, ores_status = Failed,
                  ores_results = step_results execution', ores_error = Some (exc_str e)\<rparr>,
                 st2\<lparr>active_workflows := AList.delete eid (active_workflows st2)\<rparr>)))"

definition get_workflow_status :: "orchestrator \<Rightarrow> string \<Rightarrow> workflow_execution option" where
  "get_workflow_status st eid = map_of (active_workflows st) eid"

section \<open>Example data\<close>

definition ctx0 :: agent_context where
  "ctx0 = \<lparr>session_id = ''s1'', workspace_id = ''w1'', user_id = ''u1''\<rparr>"

text \<open>A provider of the given type that answers every request with the same confidence.\<close>

definition const_agent :: "agent_type \<Rightarrow> bool \<Rightarrow> real \<Rightarrow> agent" where
  "const_agent t can c =
     \<lparr>agent_kind = t, agent_name = ''agent'', can_handle = (\<lambda>_ _. (can, c)),
      should_handoff = (\<lambda>_ _. None)\<rparr>"

definition registry2 :: registry where
  "registry2 = register (register [] (const_agent TASK True (1/2))) (const_agent PROJECT True (1/2))"

text \<open>
  An environment whose \<open>n\<close>-th call of \<open>execute\<close> has the outcome \<open>f n\<close>, whatever the
  provider and the prompt.
\<close>

definition env_of :: "(nat \<Rightarrow> exec_outcome) \<Rightarrow> environment" where
  "env_of f =
     \<lparr>execute = (\<lambda>n _ _ _. f n),
      uuid4 = (\<lambda>n. ''uuid-'' @ digits n),
      format_agent_type = agent_type_value,
      str_container = (\<lambda>_. ''<container>''),
      str_field = (\<lambda>v. case v of PStr s \<Rightarrow> Inr s | _ \<Rightarrow> Inl (ValueError ''str expected''))\<rparr>"

definition result_of :: "agent_status \<Rightarrow> pydict \<Rightarrow> string option \<Rightarrow> agent_result" where
  "result_of s out err =
     \<lparr>result_id = ''r'', ar_status = s, ar_output = out, ar_tool_calls = [],
      ar_suggested_actions = [], ar_handoff = None, ar_error = err,
      ar_execution_time_ms = 0, ar_tokens_used = 0\<rparr>"

definition orch0 :: orchestrator where
  "orch0 = \<lparr>agents = registry2, active_workflows = [], exec_log = [], uuids_drawn = 0\<rparr>"

definition exec0 :: workflow_execution where
  "exec0 = \<lparr>we_id = ''e'', we_workflow_id = ''wf'', we_session_id = ''s1'', we_status = Running,
            we_current_step = None, step_results = [], we_error = None\<rparr>"

text \<open>An execution with the given recorded results.\<close>

definition exec_with :: "(string \<times> workflow_step_result) list \<Rightarrow> workflow_execution" where
  "exec_with rs = exec0\<lparr>step_results := rs\<rparr>"

definition mk_result :: "string \<Rightarrow> run_status \<Rightarrow> pydict option \<Rightarrow> workflow_step_result" where
  "mk_result sid status out =
     \<lparr>sr_step_id = sid, sr_status = status, sr_output = out, sr_error = None,
      sr_agent_type = TASK\<rparr>"

definition mk_step :: "string \<Rightarrow> agent_type \<Rightarrow> string list \<Rightarrow> workflow_step" where
  "mk_step sid t deps =
     \<lparr>ws_id = sid, ws_name = sid, ws_agent = t, ws_action = ''run'', ws_input = [],
      depends_on = deps, ws_condition = None, ws_timeout = None, retries = 0,
      on_error = OnFail, fallback_agent = None\<rparr>"

definition mk_workflow :: "workflow_step list \<Rightarrow> error_handling_mode \<Rightarrow> workflow_definition" where
  "mk_workflow steps mode =
     \<lparr>wd_id = ''wf'', wd_name = ''wf'', wd_steps = steps, error_handling = mode,
      wd_timeout = None\<rparr>"

definition cond_if_a :: workflow_condition where
  "cond_if_a = \<lparr>wc_type = CondIf, wc_expression = Some ''steps.a'', wc_value = None\<rparr>"

definition step_b_if_a :: workflow_step where
  "step_b_if_a = (mk_step ''b'' PROJECT [''a''])\<lparr>ws_condition := Some cond_if_a\<rparr>"

text \<open>A provider that times out, then fails, then completes.\<close>

definition outcomes3 :: "nat \<Rightarrow> exec_outcome" where
  "outcomes3 n =
     (if n = 0 then Raised (TimeoutError [])
      else if n = 1 then Returned (result_of FAILED [] (Some ''bad''))
      else Returned (result_of COMPLETED [(''x'', PStr ''42'')] None))"

text \<open>A primary provider that fails and a fallback that completes.\<close>

definition outcomes_fb :: "nat \<Rightarrow> exec_outcome" where
  "outcomes_fb n =
     (if n = 0 then Returned (result_of FAILED [] (Some ''primary failed''))
      else Returned (result_of COMPLETED [(''x'', PStr ''42'')] None))"

definition step_fb :: workflow_step where
  "step_fb = (mk_step ''s'' TASK [])\<lparr>on_error := OnFallback, fallback_agent := Some PROJECT\<rparr>"

definition exec_a42 :: workflow_execution where
  "exec_a42 = exec_with [(''a'', mk_result ''a'' Completed (Some [(''x'', PStr ''42'')]))]"

text \<open>
  A completed step \<open>a\<close> whose output holds falsy values and one truthy value, and a step
  input that refers to them.
\<close>

definition exec_falsy :: workflow_execution where
  "exec_falsy = exec_with [(''a'', mk_result ''a'' Completed
                  (Some [(''n'', PInt 0), (''b'', PBool False), (''s'', PStr []), (''l'', PList []),
                         (''d'', PDict [(''z'', PInt 0), (''e'', PDict [])]), (''m'', PInt 5)])),
                (''e'', mk_result ''e'' Completed (Some []))]"

definition input_falsy :: pydict where
  "input_falsy =
     [(''f'', PList [PStr ''n={{steps.a.output.n}};'',
                     PStr ''{{ steps.a.output.b }}'',
                     PStr ''{{steps.a.output.s}}'',
                     PStr ''{{steps.a.output.l}}'',
                     PStr ''{{steps.a.output.d.e}}'',
                     PStr (''{{steps.a.output.m'' @ [CHR 0xA0] @ ''}}''),
                     PStr ''{{steps.e.output}}''])]"

section \<open>Routing\<close>

lemma route_loop_shape:
  "route_loop request context exclude reg (ba, bc) = (ra, rc) \<Longrightarrow>
     (ra = ba \<and> rc = bc \<and>
        (\<forall>a \<in> set (eligible reg request context exclude).
           confidence_of request context a \<le> bc))
     \<or> (\<exists>pre w post.
          eligible reg request context exclude = pre @ w # post \<and>
          ra = Some w \<and> rc = confidence_of request context w \<and> bc < rc \<and>
          (\<forall>b \<in> set pre. confidence_of request context b < rc) \<and>
          (\<forall>b \<in> set post. confidence_of request context b \<le> rc))"
proof (induction reg arbitrary: ba bc)
  case Nil
  then show ?case by (simp add: eligible_def)
next
  case (Cons p rest)
  obtain t a where p: "p = (t, a)" by (cases p)
  obtain can c where ch: "can_handle a request context = (can, c)"
    by (cases "can_handle a request context")
  have step: "route_loop request context exclude (p # rest) (ba, bc) =
     (if t \<in> set exclude \<or> \<not> can \<or> \<not> c > bc
      then route_loop request context exclude rest (ba, bc)
      else route_loop request context exclude rest (Some a, c))"
    using p ch by simp
  show ?case
  proof (cases "t \<in> set exclude \<or> \<not> can")
    case True
    then have el: "eligible (p # rest) request context exclude
                 = eligible rest request context exclude"
      using p ch by (auto simp: eligible_def)
    from True Cons.prems step
    have "route_loop request context exclude rest (ba, bc) = (ra, rc)" by (auto split: if_splits)
    from Cons.IH[OF this] show ?thesis unfolding el .
  next
    case False
    then have el: "eligible (p # rest) request context exclude
                 = a # eligible rest request context exclude"
      using p ch by (auto simp: eligible_def)
    have ca: "confidence_of request context a = c"
      using ch by (simp add: confidence_of_def)
    show ?thesis
    proof (cases "c > bc")
      case True
      with False Cons.prems step
      have "route_loop request context exclude rest (Some a, c) = (ra, rc)" by (auto split: if_splits)
      from Cons.IH[OF this] show ?thesis
      proof
        assume h: "ra = Some a \<and> rc = c \<and>
          (\<forall>a \<in> set (eligible rest request context exclude).
             confidence_of request context a \<le> c)"
        show ?thesis
          by (rule disjI2, rule exI[of _ "[]"], rule exI[of _ a],
              rule exI[of _ "eligible rest request context exclude"])
             (use h ca True el in simp)
      next
        assume "\<exists>pre w post.
          eligible rest request context exclude = pre @ w # post \<and>
          ra = Some w \<and> rc = confidence_of request context w \<and> c < rc \<and>
          (\<forall>b \<in> set pre. confidence_of request context b < rc) \<and>
          (\<forall>b \<in> set post. confidence_of request context b \<le> rc)"
        then obtain pre w post where h:
          "eligible rest request context exclude = pre @ w # post"
          "ra = Some w" "rc = confidence_of request context w" "c < rc"
          "\<forall>b \<in> set pre. confidence_of request context b < rc"
          "\<forall>b \<in> set post. confidence_of request context b \<le> rc"
          by blast
        show ?thesis
          by (rule disjI2, rule exI[of _ "a # pre"], rule exI[of _ w], rule exI[of _ post])
             (use h ca True el in auto)
      qed
    next
      case nb: False
      with False Cons.prems step
      have "route_loop request context exclude rest (ba, bc) = (ra, rc)" by (auto split: if_splits)
      from Cons.IH[OF this] show ?thesis
      proof
        assume h: "ra = ba \<and> rc = bc \<and>
          (\<forall>a \<in> set (eligible rest request context exclude).
             confidence_of request context a \<le> bc)"
        with el ca nb show ?thesis by auto
      next
        assume "\<exists>pre w post.
          eligible rest request context exclude = pre @ w # post \<and>
          ra = Some w \<and> rc = confidence_of request context w \<and> bc < rc \<and>
          (\<forall>b \<in> set pre. confidence_of request context b < rc) \<and>
          (\<forall>b \<in> set post. confidence_of request context b \<le> rc)"
        then obtain pre w post where h:
          "eligible rest request context exclude = pre @ w # post"
          "ra = Some w" "rc = confidence_of request context w" "bc < rc"
          "\<forall>b \<in> set pre. confidence_of request context b < rc"
          "\<forall>b \<in> set post. confidence_of request context b \<le> rc"
          by blast
        show ?thesis
          by (rule disjI2, rule exI[of _ "a # pre"], rule exI[of _ w], rule exI[of _ post])
             (use h ca nb el in auto)
      qed
    qed
  qed
qed


text \<open>
  C7. \<open>route_request\<close> returns the provider with the strictly greatest confidence among
  the non-excluded providers whose \<open>can_handle\<close> answers true: the winner \<open>w\<close> is one of
  them, every such provider registered before it has a strictly smaller confidence and
  every one registered after it has at most its confidence, so equal confidences go to the
  first registered. When no such provider has a confidence above the initial \<open>0.0\<close>, the
  result is \<open>(None, 0.0)\<close>.
\<close>

theorem route_request_strictly_greatest:
  "(case route_request reg request context exclude of
      (None, c) \<Rightarrow>
        c = 0 \<and>
        (\<forall>a \<in> set (eligible reg request context (case exclude of None \<Rightarrow> [] | Some e \<Rightarrow> e)).
           confidence_of request context a \<le> 0)
    | (Some w, c) \<Rightarrow>
        c = confidence_of request context w \<and> 0 < c \<and>
        (\<exists>pre post.
           eligible reg request context (case exclude of None \<Rightarrow> [] | Some e \<Rightarrow> e)
             = pre @ w # post \<and>
           (\<forall>b \<in> set pre. confidence_of request context b < c) \<and>
           (\<forall>b \<in> set post. confidence_of request context b \<le> c)))"
proof -
  obtain ra rc where r: "route_request reg request context exclude = (ra, rc)"
    by (cases "route_request reg request context exclude")
  then have "route_loop request context (case exclude of None \<Rightarrow> [] | Some e \<Rightarrow> e) reg
               (None, 0) = (ra, rc)"
    by (simp add: route_request_def)
  from route_loop_shape[OF this] show ?thesis
    unfolding r by (cases ra) auto
qed

theorem route_request_strictly_greatest_witness:
  "route_request registry2 ''plan my week'' ctx0 None = (Some (const_agent TASK True (1/2)), 1/2) \<and>
   eligible registry2 ''plan my week'' ctx0 []
     = [const_agent TASK True (1/2), const_agent PROJECT True (1/2)] \<and>
   confidence_of ''plan my week'' ctx0 (const_agent PROJECT True (1/2)) = 1/2"
  using route_request_strictly_greatest[of registry2 "''plan my week''" ctx0 None]
  by (simp add: registry2_def register_def route_request_def eligible_def confidence_of_def
      const_agent_def)


section \<open>Task path\<close>

text \<open>
  C9. When the request names a type with no registered provider, \<open>execute_task\<close> does not
  raise: it returns a response with status failed, the error text
  \<open>Unknown agent type: \<close> followed by the type, the next uuid of the generator as task id,
  and no result. No provider is executed.
\<close>

theorem execute_task_unknown_agent:
  "get (agents st) (treq_agent_type request) = None \<Longrightarrow>
   execute_task env st request context =
     (Inr \<lparr>task_id = uuid4 env (uuids_drawn st), tres_status = Failed, tres_result = None,
           tres_error = Some (''Unknown agent type: ''
                               @ format_agent_type env (treq_agent_type request))\<rparr>,
      st\<lparr>uuids_drawn := Suc (uuids_drawn st)\<rparr>)"
  by (simp add: execute_task_def draw_uuid_def)

theorem execute_task_unknown_agent_witness:
  "get (agents orch0) ORCHESTRATOR = None \<and>
   fst (execute_task (env_of (\<lambda>_. Raised (OtherException ''boom''))) orch0
          \<lparr>treq_agent_type = ORCHESTRATOR, treq_task_type = ''summarize'', treq_input = [],
           treq_async_execution = False\<rparr> ctx0)
     = Inr \<lparr>task_id = ''uuid-0'', tres_status = Failed, tres_result = None,
            tres_error = Some ''Unknown agent type: orchestrator''\<rparr>"
proof -
  have g: "get (agents orch0) ORCHESTRATOR = None"
    by (simp add: orch0_def registry2_def register_def get_def const_agent_def)
  have "get (agents orch0)
          (treq_agent_type \<lparr>treq_agent_type = ORCHESTRATOR, treq_task_type = ''summarize'',
             treq_input = [], treq_async_execution = False\<rparr>) = None"
    using g by simp
  from execute_task_unknown_agent[OF this, of "env_of (\<lambda>_. Raised (OtherException ''boom''))" ctx0] g
  show ?thesis by (simp add: env_of_def orch0_def digits.simps[of 0])
qed

section \<open>Chat path\<close>

lemma error_response_fields:
  "error_response env st a context e = (r, st') \<Longrightarrow>
     cres_agent_type r = agent_kind a \<and> cres_session_id r = session_id context \<and>
     cres_content r = ''I encountered an error processing your request: '' @ exc_str e"
  by (auto simp: error_response_def draw_uuid_def)

lemma build_response_fields:
  "build_response env a context result = Inr r \<Longrightarrow>
     cres_agent_type r = agent_kind a \<and> cres_session_id r = session_id context"
  by (auto simp: build_response_def split: option.splits sum.splits)

lemma select_agent_raises:
  "select_agent env st request context = Inl e \<Longrightarrow>
     (\<exists>t. creq_agent_type request = Some t \<and> get (agents st) t = None \<and>
          e = ValueError (''Unknown agent type: '' @ format_agent_type env t))
     \<or> (creq_agent_type request = None \<and>
         fst (route_request (agents st) (creq_message request) context None) = None \<and>
         get (agents st) PLANNER = None \<and>
         e = RuntimeError ''No agents available to handle request'')"
  by (auto simp: select_agent_def split: option.splits prod.splits)

lemma error_response_metadata:
  "error_response env st a ctx e = (r, st') \<Longrightarrow>
     cres_metadata r = [(''error'', PStr (exc_str e))] \<and> cres_message_id r = uuid4 env (uuids_drawn st)"
  by (auto simp: error_response_def draw_uuid_def)

lemma build_response_content:
  "build_response env a ctx result = Inr r \<Longrightarrow>
     cres_message_id r = result_id result \<and>
     (case map_of (ar_output result) ''response'' of
        None \<Rightarrow> cres_content r = py_str env (PDict (ar_output result))
      | Some v \<Rightarrow> str_field env v = Inr (cres_content r))"
  by (auto simp: build_response_def split: option.splits sum.splits)

lemma build_response_error:
  "build_response env a ctx result = Inl e \<Longrightarrow>
     \<exists>v. map_of (ar_output result) ''response'' = Some v \<and> str_field env v = Inl e"
  by (auto simp: build_response_def split: option.splits sum.splits)

text \<open>
  C6, as the claim states it, fails: a request that names a type with no registered
  provider makes \<open>chat\<close> raise \<open>ValueError\<close> to its caller.
\<close>

theorem chat_raises_counterexample:
  "fst (chat (env_of (\<lambda>_. Returned (result_of COMPLETED [] None))) orch0
          \<lparr>creq_session_id = None, creq_message = ''hello'',
           creq_agent_type = Some ORCHESTRATOR\<rparr> ctx0)
     = Inl (ValueError ''Unknown agent type: orchestrator'')"
  by (simp add: chat_def select_agent_def orch0_def registry2_def register_def get_def
      const_agent_def env_of_def)

text \<open>
  C6, amended. \<open>chat\<close> raises only while it selects the provider: \<open>ValueError\<close> when the
  type asked for is not registered, \<open>RuntimeError\<close> when routing finds nothing and no planner
  is registered. Once a provider is selected, \<open>chat\<close> returns a response that carries the
  type of the (possibly handoff-substituted) provider and the session id of the context.
  When the execution of that provider raises \<open>e\<close>, or when it returns a result whose
  \<open>response\<close> entry is refused as content with the exception \<open>e\<close>, the content is the error
  text built from \<open>str(e)\<close> and the metadata hold \<open>str(e)\<close> under \<open>error\<close>. When it returns a
  result whose \<open>response\<close> entry is accepted, that entry is the content; when the result has
  no \<open>response\<close> entry, the content is \<open>str\<close> of the output; in both cases the message id
  is the id of the result.
\<close>

theorem chat_raises_only_in_selection:
  "(case select_agent env st request context of
      Inl e \<Rightarrow>
        chat env st request context = (Inl e, st) \<and>
        ((\<exists>t. creq_agent_type request = Some t \<and> get (agents st) t = None \<and>
              e = ValueError (''Unknown agent type: '' @ format_agent_type env t))
         \<or> (creq_agent_type request = None \<and>
             fst (route_request (agents st) (creq_message request) context None) = None \<and>
             get (agents st) PLANNER = None \<and>
             e = RuntimeError ''No agents available to handle request''))
    | Inr a0 \<Rightarrow>
        (\<exists>r st'.
           chat env st request context = (Inr r, st') \<and>
           cres_agent_type r = agent_kind (apply_handoff st a0 (creq_message request) context) \<and>
           cres_session_id r = session_id context \<and>
           (\<forall>e. execute env (length (exec_log st))
                  (agent_kind (apply_handoff st a0 (creq_message request) context))
                  (creq_message request) context = Raised e \<longrightarrow>
                cres_content r
                  = ''I encountered an error processing your request: '' @ exc_str e) \<and>
           (\<forall>e. execute env (length (exec_log st))
                  (agent_kind (apply_handoff st a0 (creq_message request) context))
                  (creq_message request) context = Raised e \<longrightarrow>
                cres_metadata r = [(''error'', PStr (exc_str e))]) \<and>
           (\<forall>result v e.
                execute env (length (exec_log st))
                  (agent_kind (apply_handoff st a0 (creq_message request) context))
                  (creq_message request) context = Returned result \<and>
                map_of (ar_output result) ''response'' = Some v \<and> str_field env v = Inl e \<longrightarrow>
                cres_content r
                  = ''I encountered an error processing your request: '' @ exc_str e \<and>
                cres_metadata r = [(''error'', PStr (exc_str e))]) \<and>
           (\<forall>result v c.
                execute env (length (exec_log st))
                  (agent_kind (apply_handoff st a0 (creq_message request) context))
                  (creq_message request) context = Returned result \<and>
                map_of (ar_output result) ''response'' = Some v \<and> str_field env v = Inr c \<longrightarrow>
                cres_content r = c \<and> cres_message_id r = result_id result) \<and>
           (\<forall>result.
                execute env (length (exec_log st))
                  (agent_kind (apply_handoff st a0 (creq_message request) context))
                  (creq_message request) context = Returned result \<and>
                map_of (ar_output result) ''response'' = None \<longrightarrow>
                cres_content r = py_str env (PDict (ar_output result)) \<and>
                cres_message_id r = result_id result)))"
proof (cases "select_agent env st request context")
  case (Inl e)
  then show ?thesis
    using select_agent_raises[OF Inl] by (simp add: chat_def)
next
  case (Inr a0)
  define a where "a = apply_handoff st a0 (creq_message request) context"
  obtain out st1 where ce: "call_execute env st a (creq_message request) context = (out, st1)"
    by (cases "call_execute env st a (creq_message request) context")
  then have out: "execute env (length (exec_log st)) (agent_kind a)
                          (creq_message request) context = out"
    by (auto simp: call_execute_def)
  show ?thesis
  proof (cases out)
    case (Raised e)
    obtain r st2 where er: "error_response env st1 a context e = (r, st2)"
      by (cases "error_response env st1 a context e")
    have "chat env st request context = (Inr r, st2)"
      using Inr ce Raised er by (simp add: chat_def a_def[symmetric])
    moreover note error_response_fields[OF er] error_response_metadata[OF er]
    ultimately show ?thesis
      using Inr Raised out by (simp add: a_def[symmetric])
  next
    case (Returned result)
    show ?thesis
    proof (cases "build_response env a context result")
      case (Inl e)
      obtain r st2 where er: "error_response env st1 a context e = (r, st2)"
        by (cases "error_response env st1 a context e")
      have "chat env st request context = (Inr r, st2)"
        using Inr ce Returned Inl er by (simp add: chat_def a_def[symmetric])
      moreover note error_response_fields[OF er] error_response_metadata[OF er]
        build_response_error[OF Inl]
      ultimately show ?thesis
        using \<open>select_agent env st request context = Inr a0\<close> Returned out
        by (auto simp add: a_def[symmetric])
    next
      case (Inr r)
      have "chat env st request context = (Inr r, st1)"
        using \<open>select_agent env st request context = Inr a0\<close> ce Returned Inr
        by (simp add: chat_def a_def[symmetric])
      moreover note build_response_fields[OF Inr] build_response_content[OF Inr]
      ultimately show ?thesis
        using \<open>select_agent env st request context = Inr a0\<close> Returned out
        by (auto simp add: a_def[symmetric])
    qed
  qed
qed

theorem chat_raises_only_in_selection_witness:
  "select_agent (env_of (\<lambda>_. Raised (OtherException ''backend down''))) orch0
      \<lparr>creq_session_id = None, creq_message = ''hello'', creq_agent_type = Some PROJECT\<rparr> ctx0
     = Inr (const_agent PROJECT True (1/2)) \<and>
   (\<exists>r st'.
      chat (env_of (\<lambda>_. Raised (OtherException ''backend down''))) orch0
        \<lparr>creq_session_id = None, creq_message = ''hello'', creq_agent_type = Some PROJECT\<rparr> ctx0
        = (Inr r, st') \<and>
      cres_agent_type r = PROJECT \<and>
      cres_content r = ''I encountered an error processing your request: backend down'') \<and>
   (\<exists>r st'.
      chat (env_of (\<lambda>_. Returned (result_of COMPLETED [(''response'', PInt 3)] None))) orch0
        \<lparr>creq_session_id = None, creq_message = ''hello'', creq_agent_type = Some PROJECT\<rparr> ctx0
        = (Inr r, st') \<and>
      cres_agent_type r = PROJECT \<and>
      cres_content r = ''I encountered an error processing your request: str expected'')"
proof -
  let ?env = "env_of (\<lambda>_. Raised (OtherException ''backend down''))"
  let ?env2 = "env_of (\<lambda>_. Returned (result_of COMPLETED [(''response'', PInt 3)] None))"
  let ?rq = "\<lparr>creq_session_id = None, creq_message = ''hello'', creq_agent_type = Some PROJECT\<rparr>"
  have sel: "\<And>env. select_agent env orch0 ?rq ctx0 = Inr (const_agent PROJECT True (1/2))"
    by (simp add: select_agent_def orch0_def registry2_def register_def get_def const_agent_def)
  have ho: "apply_handoff orch0 (const_agent PROJECT True (1/2)) ''hello'' ctx0
              = const_agent PROJECT True (1/2)"
    by (simp add: apply_handoff_def const_agent_def)
  have ex: "execute ?env (length (exec_log orch0)) PROJECT ''hello'' ctx0
              = Raised (OtherException ''backend down'')"
    by (simp add: env_of_def)
  have ex2: "execute ?env2 (length (exec_log orch0)) PROJECT ''hello'' ctx0
              = Returned (result_of COMPLETED [(''response'', PInt 3)] None)"
    by (simp add: env_of_def)
  have sf: "map_of (ar_output (result_of COMPLETED [(''response'', PInt 3)] None)) ''response''
              = Some (PInt 3) \<and> str_field ?env2 (PInt 3) = Inl (ValueError ''str expected'')"
    by (simp add: result_of_def env_of_def)
  have k: "agent_kind (const_agent PROJECT True (1/2)) = PROJECT"
    by (simp add: const_agent_def)
  from chat_raises_only_in_selection[of ?env orch0 ?rq ctx0] sel[of ?env] ho ex k
  have w1: "\<exists>r st'. chat ?env orch0 ?rq ctx0 = (Inr r, st') \<and> cres_agent_type r = PROJECT \<and>
      cres_content r = ''I encountered an error processing your request: backend down''"
    by auto
  have msg: "creq_message ?rq = ''hello''" by simp
  note T = chat_raises_only_in_selection[of ?env2 orch0 ?rq ctx0]
  from T[unfolded sel sum.case msg ho k]
  obtain r st' where c: "chat ?env2 orch0 ?rq ctx0 = (Inr r, st')" "cres_agent_type r = PROJECT"
    and imp: "\<forall>result v e.
                execute ?env2 (length (exec_log orch0)) PROJECT ''hello'' ctx0 = Returned result \<and>
                map_of (ar_output result) ''response'' = Some v \<and> str_field ?env2 v = Inl e \<longrightarrow>
                cres_content r
                  = ''I encountered an error processing your request: '' @ exc_str e \<and>
                cres_metadata r = [(''error'', PStr (exc_str e))]"
    by blast
  from imp ex2 sf have "cres_content r
      = ''I encountered an error processing your request: '' @ exc_str (ValueError ''str expected'')"
    by blast
  with c have w2: "\<exists>r st'. chat ?env2 orch0 ?rq ctx0 = (Inr r, st') \<and> cres_agent_type r = PROJECT \<and>
      cres_content r = ''I encountered an error processing your request: str expected''"
    by auto
  from sel[of ?env] w1 w2 show ?thesis by blast
qed



section \<open>Dependencies and recorded results\<close>

lemma dependencies_loop_iff:
  "dependencies_loop deps results =
     (\<forall>d \<in> set deps. \<exists>r. map_of results d = Some r \<and>
                            (sr_status r = Completed \<or> sr_status r = Skipped))"
  by (induction deps) (auto split: option.splits)

lemma map_of_record_result:
  "map_of (step_results (record_result sid r execution)) k
     = (if k = sid then Some r else map_of (step_results execution) k)"
  by (simp add: record_result_def update_conv')


section \<open>Cleanup of the active-execution map\<close>

lemma call_execute_active:
  "call_execute env st a prompt ctx = (out, st') \<Longrightarrow>
     active_workflows st' = active_workflows st \<and> agents st' = agents st \<and>
     uuids_drawn st' = uuids_drawn st"
  by (auto simp: call_execute_def)

lemma retry_loop_active:
  "retry_loop env st a prompt ctx step r le = (res, st') \<Longrightarrow>
     active_workflows st' = active_workflows st \<and> agents st' = agents st \<and>
     uuids_drawn st' = uuids_drawn st"
proof (induction env st a prompt ctx step r le rule: retry_loop.induct)
  case (1 env st a prompt ctx step r le)
  obtain out st1 where ce: "call_execute env st a prompt ctx = (out, st1)"
    by (cases "call_execute env st a prompt ctx")
  note ca = call_execute_active[OF ce]
  show ?case
  proof (cases "r \<ge> 0")
    case False
    with "1.prems" show ?thesis by (simp add: retry_loop.simps)
  next
    case True
    show ?thesis
    proof (cases out)
      case (Returned result)
      show ?thesis
      proof (cases "ar_status result = COMPLETED")
        case c: True
        with True ce Returned "1.prems" ca show ?thesis
          by (simp add: retry_loop.simps[of env st])
      next
        case c: False
        with True ce Returned "1.prems"
        have "retry_loop env st1 a prompt ctx step (r - 1)
                (Some (error_or_default (ar_error result))) = (res, st')"
          by (simp add: retry_loop.simps[of env st])
        from "1.IH"(1)[OF True ce[symmetric] _ c this] Returned ca show ?thesis by simp
      qed
    next
      case (Raised e)
      show ?thesis
      proof (cases "is_timeout e")
        case t: True
        with True ce Raised "1.prems"
        have "retry_loop env st1 a prompt ctx step (r - 1) (Some ''Step timed out'')
                = (res, st')"
          by (simp add: retry_loop.simps[of env st])
        from "1.IH"(2)[OF True ce[symmetric] _ t this] Raised ca show ?thesis by simp
      next
        case t: False
        with True ce Raised "1.prems" ca show ?thesis
          by (simp add: retry_loop.simps[of env st])
      qed
    qed
  qed
qed

lemma execute_workflow_step_active:
  "execute_workflow_step env st step execution ctx wi = (res, st') \<Longrightarrow>
     active_workflows st' = active_workflows st \<and> agents st' = agents st \<and>
     uuids_drawn st' = uuids_drawn st"
  by (auto simp: execute_workflow_step_def Let_def split: option.splits dest: retry_loop_active)

lemma handle_step_failure_active:
  "handle_step_failure env wi ctx step result (execution, st) = (e, execution', st') \<Longrightarrow>
     active_workflows st' = active_workflows st \<and> agents st' = agents st \<and>
     uuids_drawn st' = uuids_drawn st"
  by (auto simp: handle_step_failure_def split: if_splits option.splits prod.splits
      dest: execute_workflow_step_active)

lemma run_step_active:
  "run_step env workflow wi ctx step_id (execution, st) = (e, execution', st') \<Longrightarrow>
     active_workflows st' = active_workflows st \<and> agents st' = agents st \<and>
     uuids_drawn st' = uuids_drawn st"
  apply (simp add: run_step_def Let_def split: option.splits if_splits prod.splits)
  apply (auto dest!: execute_workflow_step_active handle_step_failure_active)
  done

lemma orchestrate_loop_active:
  "orchestrate_loop env workflow wi ctx order (execution, st) = (e, execution', st') \<Longrightarrow>
     active_workflows st' = active_workflows st \<and> agents st' = agents st \<and>
     uuids_drawn st' = uuids_drawn st"
proof (induction order arbitrary: execution st)
  case Nil
  then show ?case by simp
next
  case (Cons step_id rest)
  obtain e1 ex1 st1 where rs: "run_step env workflow wi ctx step_id (execution, st) = (e1, ex1, st1)"
    by (cases "run_step env workflow wi ctx step_id (execution, st)")
  note ra = run_step_active[OF rs]
  show ?case
  proof (cases e1)
    case None
    with Cons.prems rs have "orchestrate_loop env workflow wi ctx rest (ex1, st1) = (e, execution', st')"
      by simp
    from Cons.IH[OF this] ra show ?thesis by simp
  next
    case (Some x)
    with Cons.prems rs ra show ?thesis by simp
  qed
qed

lemma orchestrate_body_active:
  "orchestrate_body env request ctx (execution, st) = (e, execution', st') \<Longrightarrow>
     active_workflows st' = active_workflows st \<and> agents st' = agents st \<and>
     uuids_drawn st' = uuids_drawn st"
  by (auto simp: orchestrate_body_def split: sum.splits dest: orchestrate_loop_active)

lemma map_of_delete_update:
  "map_of (AList.delete k (AList.update k v al)) = (map_of al)(k := None)"
  by (rule ext) (simp add: delete_conv' update_conv')

text \<open>
  C5. Whatever the request, the context and the outcomes of the providers, \<open>orchestrate\<close>
  returns a response (completed or failed; an exception inside the body is the failed
  one), the execution id is the uuid drawn at the start, and afterwards
  \<open>get_workflow_status\<close> of that id is absent; the other entries of the active-execution
  map are as they were before the call.
\<close>

theorem orchestrate_removes_execution:
  "get_workflow_status (snd (orchestrate env st request ctx))
       (execution_id (fst (orchestrate env st request ctx))) = None
   \<and> get_workflow_status (snd (orchestrate env st request ctx))
       = (get_workflow_status st)(execution_id (fst (orchestrate env st request ctx)) := None)
   \<and> execution_id (fst (orchestrate env st request ctx)) = uuid4 env (uuids_drawn st)
   \<and> (ores_status (fst (orchestrate env st request ctx)) = Completed \<or>
       ores_status (fst (orchestrate env st request ctx)) = Failed)"
proof -
  let ?eid = "uuid4 env (uuids_drawn st)"
  let ?st0 = "st\<lparr>uuids_drawn := Suc (uuids_drawn st)\<rparr>"
  let ?execution = "\<lparr>we_id = ?eid, we_workflow_id = wd_id (oreq_workflow request),
      we_session_id = session_id ctx, we_status = Running, we_current_step = None,
      step_results = [], we_error = None\<rparr>"
  let ?st1 = "?st0\<lparr>active_workflows := AList.update ?eid ?execution (active_workflows ?st0)\<rparr>"
  obtain e ex2 st2 where b: "orchestrate_body env request ctx (?execution, ?st1) = (e, ex2, st2)"
    by (cases "orchestrate_body env request ctx (?execution, ?st1)")
  from orchestrate_body_active[OF b]
  have a: "active_workflows st2 = AList.update ?eid ?execution (active_workflows st)" by simp
  have o: "orchestrate env st request ctx =
     (\<lparr>execution_id = ?eid, ores_status = (case e of None \<Rightarrow> Completed | Some x \<Rightarrow> Failed),
       ores_results = step_results ex2,
       ores_error = (case e of None \<Rightarrow> None | Some x \<Rightarrow> Some (exc_str x))\<rparr>,
      st2\<lparr>active_workflows := AList.delete ?eid (active_workflows st2)\<rparr>)"
    using b by (cases e) (simp_all add: orchestrate_def draw_uuid_def Let_def)
  have g: "\<And>s. get_workflow_status s = map_of (active_workflows s)"
    by (rule ext) (simp add: get_workflow_status_def)
  show ?thesis
    unfolding o by (cases e) (simp_all add: g a map_of_delete_update)
qed


theorem orchestrate_removes_execution_witness:
  "get_workflow_status
     (snd (orchestrate (env_of (\<lambda>_. Raised (OtherException ''x''))) orch0
             \<lparr>oreq_workflow = mk_workflow [mk_step ''a'' TASK [''a'']] FailFast, oreq_input = []\<rparr>
             ctx0)) ''uuid-0'' = None"
  using orchestrate_removes_execution[of "env_of (\<lambda>_. Raised (OtherException ''x''))" orch0
      "\<lparr>oreq_workflow = mk_workflow [mk_step ''a'' TASK [''a'']] FailFast, oreq_input = []\<rparr>" ctx0]
  by (simp add: env_of_def orch0_def digits.simps[of 0])

section \<open>Retries\<close>

lemma retry_loop_calls:
  "retry_loop env st a prompt ctx step r le = (res, st') \<Longrightarrow>
     \<exists>n. n \<le> nat (r + 1) \<and> exec_log st' = exec_log st @ replicate n (agent_kind a, prompt)"
proof (induction env st a prompt ctx step r le rule: retry_loop.induct)
  case (1 env st a prompt ctx step r le)
  obtain out st1 where ce: "call_execute env st a prompt ctx = (out, st1)"
    by (cases "call_execute env st a prompt ctx")
  then have l1: "exec_log st1 = exec_log st @ [(agent_kind a, prompt)]"
    by (auto simp: call_execute_def)
  show ?case
  proof (cases "r \<ge> 0")
    case False
    with "1.prems" have "st' = st" by (simp add: retry_loop.simps)
    then show ?thesis by (intro exI[of _ 0]) simp
  next
    case True
    have one: "\<exists>n. n \<le> nat (r + 1) \<and> exec_log st1 = exec_log st @ replicate n (agent_kind a, prompt)"
      using True l1 by (intro exI[of _ 1]) simp
    have more: "\<exists>n. n \<le> nat (r + 1) \<and> exec_log st' = exec_log st @ replicate n (agent_kind a, prompt)"
      if "\<exists>n. n \<le> nat (r - 1 + 1) \<and> exec_log st' = exec_log st1 @ replicate n (agent_kind a, prompt)"
    proof -
      from that obtain n where n: "n \<le> nat (r - 1 + 1)"
        "exec_log st' = exec_log st1 @ replicate n (agent_kind a, prompt)" by blast
      show ?thesis
        using n l1 True by (intro exI[of _ "Suc n"]) (simp add: replicate_app_Cons_same)
    qed
    show ?thesis
    proof (cases out)
      case (Returned result)
      show ?thesis
      proof (cases "ar_status result = COMPLETED")
        case c: True
        with True ce Returned "1.prems" have "st' = st1"
          by (simp add: retry_loop.simps[of env st])
        with one show ?thesis by simp
      next
        case c: False
        with True ce Returned "1.prems"
        have "retry_loop env st1 a prompt ctx step (r - 1)
                (Some (error_or_default (ar_error result))) = (res, st')"
          by (simp add: retry_loop.simps[of env st])
        from "1.IH"(1)[OF True ce[symmetric] _ c this] Returned more show ?thesis by simp
      qed
    next
      case (Raised e)
      show ?thesis
      proof (cases "is_timeout e")
        case t: True
        with True ce Raised "1.prems"
        have "retry_loop env st1 a prompt ctx step (r - 1) (Some ''Step timed out'')
                = (res, st')"
          by (simp add: retry_loop.simps[of env st])
        from "1.IH"(2)[OF True ce[symmetric] _ t this] Raised more show ?thesis by simp
      next
        case t: False
        with True ce Raised "1.prems" have "st' = st1"
          by (simp add: retry_loop.simps[of env st])
        with one show ?thesis by simp
      qed
    qed
  qed
qed

lemma retry_loop_failed_attempt:
  assumes "0 \<le> r"
    and "attempt_failed (execute env (length (exec_log st)) (agent_kind a) prompt ctx)"
  shows "retry_loop env st a prompt ctx step r le =
     retry_loop env (st\<lparr>exec_log := exec_log st @ [(agent_kind a, prompt)]\<rparr>) a prompt ctx step
       (r - 1) (Some (attempt_error (execute env (length (exec_log st)) (agent_kind a) prompt ctx)))"
  using assms
  by (subst retry_loop.simps)
     (auto simp: call_execute_def attempt_failed_def attempt_error_def split: exec_outcome.splits)

lemma retry_loop_success:
  "i < nat (r + 1) \<Longrightarrow>
   execute env (length (exec_log st) + i) (agent_kind a) prompt ctx = Returned res_i \<Longrightarrow>
   ar_status res_i = COMPLETED \<Longrightarrow>
   (\<forall>j<i. attempt_failed (execute env (length (exec_log st) + j) (agent_kind a) prompt ctx)) \<Longrightarrow>
   retry_loop env st a prompt ctx step r le =
     (step_result step Completed (Some (ar_output res_i)) None,
      st\<lparr>exec_log := exec_log st @ replicate (Suc i) (agent_kind a, prompt)\<rparr>)"
proof (induction i arbitrary: st r le)
  case 0
  then show ?case
    by (subst retry_loop.simps) (auto simp: call_execute_def)
next
  case (Suc i)
  let ?st1 = "st\<lparr>exec_log := exec_log st @ [(agent_kind a, prompt)]\<rparr>"
  from Suc.prems(4) have f0: "attempt_failed (execute env (length (exec_log st)) (agent_kind a) prompt ctx)"
    by (metis add.right_neutral zero_less_Suc)
  from Suc.prems(1) have r0: "0 \<le> r" by simp
  have a: "i < nat (r - 1 + 1)" using Suc.prems(1) by simp
  have b: "execute env (length (exec_log ?st1) + i) (agent_kind a) prompt ctx = Returned res_i"
    using Suc.prems(2) by simp
  have c: "\<forall>j<i. attempt_failed (execute env (length (exec_log ?st1) + j) (agent_kind a) prompt ctx)"
  proof (intro allI impI)
    fix j assume "j < i"
    then have "Suc j < Suc i" by simp
    with Suc.prems(4) have "attempt_failed (execute env (length (exec_log st) + Suc j) (agent_kind a) prompt ctx)"
      by blast
    then show "attempt_failed (execute env (length (exec_log ?st1) + j) (agent_kind a) prompt ctx)"
      by simp
  qed
  show ?case
    unfolding retry_loop_failed_attempt[OF r0 f0]
    by (subst Suc.IH[OF a b Suc.prems(3) c]) (simp add: replicate_app_Cons_same)
qed

lemma retry_loop_exhausted:
  "n = nat (r + 1) \<Longrightarrow>
   (\<forall>j<n. attempt_failed (execute env (length (exec_log st) + j) (agent_kind a) prompt ctx)) \<Longrightarrow>
   retry_loop env st a prompt ctx step r le =
     (step_result step Failed None
        (if r < 0 then le
         else Some (attempt_error
                (execute env (length (exec_log st) + nat r) (agent_kind a) prompt ctx))),
      st\<lparr>exec_log := exec_log st @ replicate n (agent_kind a, prompt)\<rparr>)"
proof (induction n arbitrary: st r le)
  case 0
  then have "r < 0" by simp
  then show ?case by (subst retry_loop.simps) simp
next
  case (Suc n)
  let ?st1 = "st\<lparr>exec_log := exec_log st @ [(agent_kind a, prompt)]\<rparr>"
  from Suc.prems(1) have r0: "0 \<le> r" by simp
  from Suc.prems(2) have f0: "attempt_failed (execute env (length (exec_log st)) (agent_kind a) prompt ctx)"
    by (metis add.right_neutral zero_less_Suc)
  have a: "n = nat (r - 1 + 1)" using Suc.prems(1) by simp
  have c: "\<forall>j<n. attempt_failed (execute env (length (exec_log ?st1) + j) (agent_kind a) prompt ctx)"
  proof (intro allI impI)
    fix j assume "j < n"
    then have "Suc j < Suc n" by simp
    with Suc.prems(2) have "attempt_failed (execute env (length (exec_log st) + Suc j) (agent_kind a) prompt ctx)"
      by blast
    then show "attempt_failed (execute env (length (exec_log ?st1) + j) (agent_kind a) prompt ctx)"
      by simp
  qed
  have idx: "\<not> r < 1 \<Longrightarrow>
      execute env (Suc (length (exec_log st) + nat (r - 1)))
        = execute env (length (exec_log st) + nat r)"
  proof -
    assume "\<not> r < 1"
    then have e: "nat r = Suc (nat (r - 1))" by simp
    show ?thesis unfolding e by simp
  qed
  show ?case
    unfolding retry_loop_failed_attempt[OF r0 f0]
    by (subst Suc.IH[OF a c]) (use r0 idx in \<open>auto simp: replicate_app_Cons_same\<close>)
qed


text \<open>
  A step bound to a type with no registered provider fails without a call; and a step
  result has an output exactly when it is completed.
\<close>

lemma execute_workflow_step_unknown_agent:
  "get (agents st) (ws_agent step) = None \<Longrightarrow>
   execute_workflow_step env st step execution ctx wi =
     (step_result step Failed None
        (Some (''Unknown agent: '' @ format_agent_type env (ws_agent step))), st)"
  by (simp add: execute_workflow_step_def)

lemma retry_loop_output:
  "retry_loop env st a prompt ctx step r le = (res, st') \<Longrightarrow>
     (sr_status res = Completed \<and> sr_output res \<noteq> None) \<or>
     (sr_status res = Failed \<and> sr_output res = None)"
proof (induction env st a prompt ctx step r le rule: retry_loop.induct)
  case (1 env st a prompt ctx step r le)
  obtain out st1 where ce: "call_execute env st a prompt ctx = (out, st1)"
    by (cases "call_execute env st a prompt ctx")
  show ?case
  proof (cases "r \<ge> 0")
    case False
    with "1.prems" show ?thesis by (auto simp: retry_loop.simps step_result_def)
  next
    case True
    show ?thesis
    proof (cases out)
      case (Returned result)
      show ?thesis
      proof (cases "ar_status result = COMPLETED")
        case c: True
        with True ce Returned "1.prems" show ?thesis
          by (auto simp: retry_loop.simps[of env st] step_result_def)
      next
        case c: False
        with True ce Returned "1.prems"
        have "retry_loop env st1 a prompt ctx step (r - 1)
                (Some (error_or_default (ar_error result))) = (res, st')"
          by (simp add: retry_loop.simps[of env st])
        from "1.IH"(1)[OF True ce[symmetric] _ c this] Returned show ?thesis by simp
      qed
    next
      case (Raised e)
      show ?thesis
      proof (cases "is_timeout e")
        case t: True
        with True ce Raised "1.prems"
        have "retry_loop env st1 a prompt ctx step (r - 1) (Some ''Step timed out'')
                = (res, st')"
          by (simp add: retry_loop.simps[of env st])
        from "1.IH"(2)[OF True ce[symmetric] _ t this] Raised show ?thesis by simp
      next
        case t: False
        with True ce Raised "1.prems" show ?thesis
          by (auto simp: retry_loop.simps[of env st] step_result_def)
      qed
    qed
  qed
qed

lemma execute_workflow_step_output:
  "execute_workflow_step env st step execution ctx wi = (res, st') \<Longrightarrow>
     (sr_status res = Completed \<and> sr_output res \<noteq> None) \<or>
     (sr_status res = Failed \<and> sr_output res = None)"
  by (auto simp: execute_workflow_step_def Let_def step_result_def split: option.splits
      dest: retry_loop_output)

text \<open>
  C2. For a step with retry count \<open>r\<close> bound to a registered provider,
  \<open>_execute_workflow_step\<close> calls \<open>execute\<close> at most \<open>r + 1\<close> times, every time the same
  provider with the same prompt. When attempt \<open>i\<close> (counted from 0, \<open>i \<le> r\<close>) is the first
  whose result is completed, the earlier ones having timed out or returned a result that is
  not completed, the step result has the status completed, the output of attempt \<open>i\<close>, no
  error, and the id and provider type of the step, after \<open>i + 1\<close> calls. When none of the
  \<open>r + 1\<close> attempts completes, the step result has the status failed, no output, and the
  error of the last attempt: \<open>Step timed out\<close> after a timeout, otherwise the error text of
  the returned result, or \<open>Agent execution failed\<close> when that text is absent or empty. With a
  negative retry count no attempt is made and the failed result has no error.
\<close>

theorem execute_workflow_step_retries:
  "get (agents st) (ws_agent step) = Some a \<Longrightarrow>
   prompt = step_prompt env step (resolve_references env (ws_input step) execution wi) \<Longrightarrow>
   execute_workflow_step env st step execution ctx wi = (res, st') \<Longrightarrow>
   (\<exists>n. n \<le> nat (retries step + 1) \<and>
        exec_log st' = exec_log st @ replicate n (agent_kind a, prompt))
   \<and> (\<forall>i res_i.
         i < nat (retries step + 1) \<and>
         execute env (length (exec_log st) + i) (agent_kind a) prompt ctx = Returned res_i \<and>
         ar_status res_i = COMPLETED \<and>
         (\<forall>j<i. attempt_failed
                  (execute env (length (exec_log st) + j) (agent_kind a) prompt ctx)) \<longrightarrow>
         res = step_result step Completed (Some (ar_output res_i)) None \<and>
         sr_status res = Completed \<and> sr_output res = Some (ar_output res_i) \<and>
         sr_error res = None \<and> sr_step_id res = ws_id step \<and>
         sr_agent_type res = ws_agent step \<and>
         exec_log st' = exec_log st @ replicate (Suc i) (agent_kind a, prompt))
   \<and> ((\<forall>j < nat (retries step + 1).
          attempt_failed (execute env (length (exec_log st) + j) (agent_kind a) prompt ctx)) \<longrightarrow>
       res = step_result step Failed None
               (if retries step < 0 then None
                else Some (attempt_error
                       (execute env (length (exec_log st) + nat (retries step))
                          (agent_kind a) prompt ctx))) \<and>
       sr_status res = Failed \<and> sr_output res = None \<and>
       sr_step_id res = ws_id step \<and> sr_agent_type res = ws_agent step \<and>
       (retries step < 0 \<longrightarrow> sr_error res = None) \<and>
       (\<forall>e. 0 \<le> retries step \<and>
            execute env (length (exec_log st) + nat (retries step)) (agent_kind a) prompt ctx
              = Raised e \<longrightarrow> sr_error res = Some ''Step timed out'') \<and>
       (\<forall>r_last. 0 \<le> retries step \<and>
            execute env (length (exec_log st) + nat (retries step)) (agent_kind a) prompt ctx
              = Returned r_last \<longrightarrow>
            sr_error res = Some (case ar_error r_last of
                                   None \<Rightarrow> ''Agent execution failed''
                                 | Some m \<Rightarrow> if m = [] then ''Agent execution failed'' else m)) \<and>
       exec_log st' = exec_log st @ replicate (nat (retries step + 1)) (agent_kind a, prompt))"
proof -
  assume g: "get (agents st) (ws_agent step) = Some a"
    and p: "prompt = step_prompt env step (resolve_references env (ws_input step) execution wi)"
    and e: "execute_workflow_step env st step execution ctx wi = (res, st')"
  from g p e have rl: "retry_loop env st a prompt ctx step (retries step) None = (res, st')"
    by (simp add: execute_workflow_step_def Let_def)
  have c1: "\<exists>n. n \<le> nat (retries step + 1) \<and>
        exec_log st' = exec_log st @ replicate n (agent_kind a, prompt)"
    by (rule retry_loop_calls[OF rl])
  have c2: "res = step_result step Completed (Some (ar_output res_i)) None \<and>
         sr_status res = Completed \<and> sr_output res = Some (ar_output res_i) \<and>
         sr_error res = None \<and> sr_step_id res = ws_id step \<and>
         sr_agent_type res = ws_agent step \<and>
         exec_log st' = exec_log st @ replicate (Suc i) (agent_kind a, prompt)"
    if h: "i < nat (retries step + 1) \<and>
         execute env (length (exec_log st) + i) (agent_kind a) prompt ctx = Returned res_i \<and>
         ar_status res_i = COMPLETED \<and>
         (\<forall>j<i. attempt_failed
                  (execute env (length (exec_log st) + j) (agent_kind a) prompt ctx))"
    for i res_i
  proof -
    from h have "retry_loop env st a prompt ctx step (retries step) None =
       (step_result step Completed (Some (ar_output res_i)) None,
        st\<lparr>exec_log := exec_log st @ replicate (Suc i) (agent_kind a, prompt)\<rparr>)"
      by (intro retry_loop_success) blast+
    with rl have "res = step_result step Completed (Some (ar_output res_i)) None"
      and "exec_log st' = exec_log st @ replicate (Suc i) (agent_kind a, prompt)"
      by auto
    then show ?thesis by (simp add: step_result_def)
  qed
  let ?last = "execute env (length (exec_log st) + nat (retries step)) (agent_kind a) prompt ctx"
  have c3: "res = step_result step Failed None
               (if retries step < 0 then None else Some (attempt_error ?last)) \<and>
       sr_status res = Failed \<and> sr_output res = None \<and>
       sr_step_id res = ws_id step \<and> sr_agent_type res = ws_agent step \<and>
       (retries step < 0 \<longrightarrow> sr_error res = None) \<and>
       (\<forall>e. 0 \<le> retries step \<and> ?last = Raised e \<longrightarrow> sr_error res = Some ''Step timed out'') \<and>
       (\<forall>r_last. 0 \<le> retries step \<and> ?last = Returned r_last \<longrightarrow>
            sr_error res = Some (case ar_error r_last of
                                   None \<Rightarrow> ''Agent execution failed''
                                 | Some m \<Rightarrow> if m = [] then ''Agent execution failed'' else m)) \<and>
       exec_log st' = exec_log st @ replicate (nat (retries step + 1)) (agent_kind a, prompt)"
    if h: "\<forall>j < nat (retries step + 1).
          attempt_failed (execute env (length (exec_log st) + j) (agent_kind a) prompt ctx)"
  proof -
    from retry_loop_exhausted[OF refl h, of step None] rl
    have r: "res = step_result step Failed None
               (if retries step < 0 then None else Some (attempt_error ?last))"
      and l: "exec_log st' = exec_log st @ replicate (nat (retries step + 1)) (agent_kind a, prompt)"
      by auto
    show ?thesis
      unfolding r using l
      by (auto simp: step_result_def attempt_error_def error_or_default_def)
  qed
  from c1 c2 c3 show ?thesis by blast
qed

theorem execute_workflow_step_retries_witness:
  "get (agents orch0) (ws_agent ((mk_step ''s'' TASK [])\<lparr>retries := 2\<rparr>))
     = Some (const_agent TASK True (1/2)) \<and>
   fst (execute_workflow_step (env_of outcomes3) orch0 ((mk_step ''s'' TASK [])\<lparr>retries := 2\<rparr>)
          exec0 ctx0 [])
     = \<lparr>sr_step_id = ''s'', sr_status = Completed, sr_output = Some [(''x'', PStr ''42'')],
        sr_error = None, sr_agent_type = TASK\<rparr> \<and>
   length (exec_log (snd (execute_workflow_step (env_of outcomes3) orch0
                            ((mk_step ''s'' TASK [])\<lparr>retries := 2\<rparr>) exec0 ctx0 []))) = 3 \<and>
   fst (execute_workflow_step (env_of (\<lambda>n. if n = 0 then Raised (TimeoutError [])
                                          else Returned (result_of FAILED [] (Some ''bad''))))
          orch0 ((mk_step ''s'' TASK [])\<lparr>retries := 1\<rparr>) exec0 ctx0 [])
     = \<lparr>sr_step_id = ''s'', sr_status = Failed, sr_output = None,
        sr_error = Some ''bad'', sr_agent_type = TASK\<rparr>"
proof -
  let ?step = "(mk_step ''s'' TASK [])\<lparr>retries := 2\<rparr>"
  let ?env = "env_of outcomes3"
  let ?a = "const_agent TASK True (1/2)"
  let ?E = "execute_workflow_step ?env orch0 ?step exec0 ctx0 []"
  let ?prompt = "step_prompt ?env ?step (resolve_references ?env (ws_input ?step) exec0 [])"
  have g: "get (agents orch0) (ws_agent ?step) = Some ?a"
    by (simp add: orch0_def registry2_def register_def get_def const_agent_def mk_step_def)
  have e: "?E = (fst ?E, snd ?E)" by simp
  have r: "retries ?step = 2" by (simp add: mk_step_def)
  have l: "length (exec_log orch0) = 0" by (simp add: orch0_def)
  have x: "\<And>n t p c. execute ?env n t p c = outcomes3 n" by (simp add: env_of_def)
  have h: "(2::nat) < nat (retries ?step + 1) \<and>
         execute ?env (length (exec_log orch0) + 2) (agent_kind ?a) ?prompt ctx0
           = Returned (result_of COMPLETED [(''x'', PStr ''42'')] None) \<and>
         ar_status (result_of COMPLETED [(''x'', PStr ''42'')] None) = COMPLETED \<and>
         (\<forall>j<2. attempt_failed
                  (execute ?env (length (exec_log orch0) + j) (agent_kind ?a) ?prompt ctx0))"
    unfolding r l x
    by (auto simp: outcomes3_def result_of_def attempt_failed_def less_Suc_eq numeral_2_eq_2)
  from execute_workflow_step_retries[OF g refl e] h
  have "sr_status (fst ?E) = Completed \<and>
        sr_output (fst ?E) = Some (ar_output (result_of COMPLETED [(''x'', PStr ''42'')] None)) \<and>
        sr_error (fst ?E) = None \<and> sr_step_id (fst ?E) = ws_id ?step \<and>
        sr_agent_type (fst ?E) = ws_agent ?step \<and>
        exec_log (snd ?E) = exec_log orch0 @ replicate (Suc 2) (agent_kind ?a, ?prompt)"
    by blast
  then have w1: "fst ?E = \<lparr>sr_step_id = ''s'', sr_status = Completed,
        sr_output = Some [(''x'', PStr ''42'')], sr_error = None, sr_agent_type = TASK\<rparr>"
    and w2: "length (exec_log (snd ?E)) = 3"
    by (simp_all add: result_of_def orch0_def mk_step_def)
  let ?step1 = "(mk_step ''s'' TASK [])\<lparr>retries := 1\<rparr>"
  let ?f = "\<lambda>n::nat. if n = 0 then Raised (TimeoutError [])
                                          else Returned (result_of FAILED [] (Some ''bad''))"
  let ?env1 = "env_of ?f"
  let ?F = "execute_workflow_step ?env1 orch0 ?step1 exec0 ctx0 []"
  let ?prompt1 = "step_prompt ?env1 ?step1 (resolve_references ?env1 (ws_input ?step1) exec0 [])"
  have g1: "get (agents orch0) (ws_agent ?step1) = Some ?a"
    by (simp add: orch0_def registry2_def register_def get_def const_agent_def mk_step_def)
  have e1: "?F = (fst ?F, snd ?F)" by simp
  have r1: "retries ?step1 = 1" by (simp add: mk_step_def)
  have x1: "\<And>n t p c. execute ?env1 n t p c = ?f n" by (simp add: env_of_def)
  have h1: "\<forall>j < nat (retries ?step1 + 1).
          attempt_failed (execute ?env1 (length (exec_log orch0) + j) (agent_kind ?a) ?prompt1 ctx0)"
    unfolding r1 l x1
    by (auto simp: result_of_def attempt_failed_def)
  have last1: "0 \<le> retries ?step1 \<and>
      execute ?env1 (length (exec_log orch0) + nat (retries ?step1)) (agent_kind ?a) ?prompt1 ctx0
        = Returned (result_of FAILED [] (Some ''bad''))"
    unfolding r1 l x1 by simp
  from execute_workflow_step_retries[OF g1 refl e1] h1 last1
  have "sr_status (fst ?F) = Failed \<and> sr_output (fst ?F) = None \<and>
        sr_step_id (fst ?F) = ws_id ?step1 \<and> sr_agent_type (fst ?F) = ws_agent ?step1 \<and>
        sr_error (fst ?F) = Some (case ar_error (result_of FAILED [] (Some ''bad'')) of
                                   None \<Rightarrow> ''Agent execution failed''
                                 | Some m \<Rightarrow> if m = [] then ''Agent execution failed'' else m)"
    by blast
  then have w3: "fst ?F = \<lparr>sr_step_id = ''s'', sr_status = Failed, sr_output = None,
        sr_error = Some ''bad'', sr_agent_type = TASK\<rparr>"
    by (simp add: result_of_def mk_step_def)
  from g w1 w2 w3 show ?thesis by blast
qed


section \<open>Fallback\<close>

lemma retry_loop_once:
  "retry_loop env st a prompt ctx step 0 le = (res, st') \<Longrightarrow>
     exec_log st' = exec_log st @ [(agent_kind a, prompt)]"
  using retry_loop_calls[of env st a prompt ctx step 0 le res st']
  apply (subst (asm) retry_loop.simps)
  apply (subst (asm) (1 2) retry_loop.simps)
  apply (auto simp: call_execute_def split: exec_outcome.splits if_splits)
  done

text \<open>
  C4. A step with \<open>on_error = fallback\<close> and a fallback provider, whose primary execution
  records a failed result \<open>r1\<close>: the loop body executes the synthesized fallback step (bound
  to the fallback provider, no retries) once, which calls the fallback provider's
  \<open>execute\<close> exactly once when that provider is registered, and the entry under the
  original step id becomes the fallback's result \<open>r2\<close>, whatever its status; no exception is
  raised and the loop goes on.
\<close>

theorem fallback_overwrites_result:
  "find (\<lambda>s. ws_id s = step_id) (wd_steps workflow) = Some step \<Longrightarrow>
   execution1 = execution\<lparr>we_current_step := Some step_id\<rparr> \<Longrightarrow>
   dependencies_satisfied step execution1 \<Longrightarrow>
   (case ws_condition step of None \<Rightarrow> True | Some c \<Rightarrow> evaluate_condition c execution1 wi) \<Longrightarrow>
   on_error step = OnFallback \<Longrightarrow>
   fallback_agent step = Some fb \<Longrightarrow>
   execute_workflow_step env st step execution1 ctx wi = (r1, st1) \<Longrightarrow>
   sr_status r1 = Failed \<Longrightarrow>
   execute_workflow_step env st1 (fallback_step step fb) (record_result step_id r1 execution1)
     ctx wi = (r2, st2) \<Longrightarrow>
   (\<exists>execution'.
      run_step env workflow wi ctx step_id (execution, st) = (None, execution', st2) \<and>
      map_of (step_results execution') step_id = Some r2 \<and>
      (\<forall>k. k \<noteq> step_id \<longrightarrow>
           map_of (step_results execution') k = map_of (step_results execution) k) \<and>
      orchestrate_loop env workflow wi ctx (step_id # rest) (execution, st)
        = orchestrate_loop env workflow wi ctx rest (execution', st2))
   \<and> ws_agent (fallback_step step fb) = fb
   \<and> (case get (agents st1) fb of
         None \<Rightarrow> exec_log st2 = exec_log st1
       | Some b \<Rightarrow>
           exec_log st2 = exec_log st1 @
             [(agent_kind b,
               step_prompt env (fallback_step step fb)
                 (resolve_references env (ws_input step) (record_result step_id r1 execution1) wi))])"
proof -
  assume f: "find (\<lambda>s. ws_id s = step_id) (wd_steps workflow) = Some step"
    and e1: "execution1 = execution\<lparr>we_current_step := Some step_id\<rparr>"
    and d: "dependencies_satisfied step execution1"
    and c: "case ws_condition step of None \<Rightarrow> True | Some c \<Rightarrow> evaluate_condition c execution1 wi"
    and oe: "on_error step = OnFallback"
    and fa: "fallback_agent step = Some fb"
    and x1: "execute_workflow_step env st step execution1 ctx wi = (r1, st1)"
    and s1: "sr_status r1 = Failed"
    and x2: "execute_workflow_step env st1 (fallback_step step fb)
               (record_result step_id r1 execution1) ctx wi = (r2, st2)"
  from f have id: "ws_id step = step_id" by (auto simp: find_Some_iff)
  let ?e = "record_result step_id r2 (record_result step_id r1 execution1)"
  have nc: "\<not> (case ws_condition step of None \<Rightarrow> False
                | Some c \<Rightarrow> \<not> evaluate_condition c execution1 wi)"
    using c by (cases "ws_condition step") auto
  have h: "handle_step_failure env wi ctx step r1 (record_result step_id r1 execution1, st1)
             = (None, ?e, st2)"
    using oe fa s1 x2 id by (simp add: handle_step_failure_def)
  have rs: "run_step env workflow wi ctx step_id (execution, st) = (None, ?e, st2)"
    using f d nc x1 h unfolding e1 by (simp add: run_step_def Let_def)
  have m: "\<And>k. map_of (step_results ?e) k
              = (if k = step_id then Some r2 else map_of (step_results execution) k)"
    by (simp add: map_of_record_result e1)
  have l: "orchestrate_loop env workflow wi ctx (step_id # rest) (execution, st)
             = orchestrate_loop env workflow wi ctx rest (?e, st2)"
    using rs by simp
  have part1: "\<exists>execution'.
      run_step env workflow wi ctx step_id (execution, st) = (None, execution', st2) \<and>
      map_of (step_results execution') step_id = Some r2 \<and>
      (\<forall>k. k \<noteq> step_id \<longrightarrow>
           map_of (step_results execution') k = map_of (step_results execution) k) \<and>
      orchestrate_loop env workflow wi ctx (step_id # rest) (execution, st)
        = orchestrate_loop env workflow wi ctx rest (execution', st2)"
    by (rule exI[of _ ?e]) (use rs m l in simp)
  have part2: "ws_agent (fallback_step step fb) = fb"
    by (simp add: fallback_step_def)
  have part3: "case get (agents st1) fb of
         None \<Rightarrow> exec_log st2 = exec_log st1
       | Some b \<Rightarrow>
           exec_log st2 = exec_log st1 @
             [(agent_kind b,
               step_prompt env (fallback_step step fb)
                 (resolve_references env (ws_input step) (record_result step_id r1 execution1) wi))]"
  proof (cases "get (agents st1) fb")
    case None
    with x2 show ?thesis by (simp add: execute_workflow_step_def fallback_step_def)
  next
    case (Some b)
    with x2 have "retry_loop env st1 b
        (step_prompt env (fallback_step step fb)
           (resolve_references env (ws_input step) (record_result step_id r1 execution1) wi))
        ctx (fallback_step step fb) 0 None = (r2, st2)"
      by (simp add: execute_workflow_step_def fallback_step_def Let_def)
    from retry_loop_once[OF this] Some show ?thesis by simp
  qed
  from part1 part2 part3 show ?thesis by blast
qed


theorem fallback_overwrites_result_witness:
  "map_of (step_results (fst (snd (run_step (env_of outcomes_fb) (mk_workflow [step_fb] Continue)
                                     [] ctx0 ''s'' (exec0, orch0))))) ''s''
     = Some (step_result (fallback_step step_fb PROJECT) Completed
               (Some [(''x'', PStr ''42'')]) None) \<and>
   length (exec_log (snd (snd (run_step (env_of outcomes_fb) (mk_workflow [step_fb] Continue)
                                 [] ctx0 ''s'' (exec0, orch0))))) = 2"
proof -
  let ?env = "env_of outcomes_fb"
  let ?wf = "mk_workflow [step_fb] Continue"
  let ?e1 = "exec0\<lparr>we_current_step := Some ''s''\<rparr>"
  let ?r1 = "step_result step_fb Failed None (Some ''primary failed'')"
  let ?r2 = "step_result (fallback_step step_fb PROJECT) Completed (Some [(''x'', PStr ''42'')]) None"
  define p1 where "p1 = step_prompt ?env step_fb (resolve_references ?env (ws_input step_fb) ?e1 [])"
  define st1 where "st1 = orch0\<lparr>exec_log := [(TASK, p1)]\<rparr>"
  have f: "find (\<lambda>s. ws_id s = ''s'') (wd_steps ?wf) = Some step_fb"
    by (simp add: mk_workflow_def step_fb_def mk_step_def)
  have d: "dependencies_satisfied step_fb ?e1"
    by (simp add: dependencies_satisfied_def step_fb_def mk_step_def)
  have c: "case ws_condition step_fb of None \<Rightarrow> True | Some c \<Rightarrow> evaluate_condition c ?e1 []"
    by (simp add: step_fb_def mk_step_def)
  have oe: "on_error step_fb = OnFallback" and fa: "fallback_agent step_fb = Some PROJECT"
    by (simp_all add: step_fb_def mk_step_def)
  have g1: "get (agents orch0) TASK = Some (const_agent TASK True (1/2))"
    and g2: "get (agents orch0) PROJECT = Some (const_agent PROJECT True (1/2))"
    by (simp_all add: orch0_def registry2_def register_def get_def const_agent_def)
  have x: "\<And>n t p c. execute ?env n t p c = outcomes_fb n" by (simp add: env_of_def)
  have l0: "exec_log orch0 = []" by (simp add: orch0_def)
  have E1: "execute_workflow_step ?env orch0 step_fb ?e1 ctx0 [] = (?r1, st1)"
    unfolding execute_workflow_step_def st1_def p1_def
    apply (simp add: step_fb_def mk_step_def g1 Let_def)
    apply (subst retry_loop.simps)
    apply (simp add: call_execute_def x l0 outcomes_fb_def result_of_def const_agent_def
        error_or_default_def)
    apply (subst retry_loop.simps)
    apply simp
    done
  have s1: "sr_status ?r1 = Failed" by (simp add: step_result_def)
  have a1: "agents st1 = agents orch0" and l1: "exec_log st1 = [(TASK, p1)]"
    by (simp_all add: st1_def)
  obtain r2 st2 where E2: "execute_workflow_step ?env st1 (fallback_step step_fb PROJECT)
               (record_result ''s'' ?r1 ?e1) ctx0 [] = (r2, st2)"
    by (cases "execute_workflow_step ?env st1 (fallback_step step_fb PROJECT)
               (record_result ''s'' ?r1 ?e1) ctx0 []")
  have r2: "r2 = ?r2"
    using E2 unfolding execute_workflow_step_def
    apply (simp add: fallback_step_def a1 g2 Let_def)
    apply (subst (asm) retry_loop.simps)
    apply (simp add: call_execute_def x l1 outcomes_fb_def result_of_def)
    done
  from fallback_overwrites_result[OF f refl d c oe fa E1 s1 E2, of "[]"]
  obtain execution' where r:
    "run_step ?env ?wf [] ctx0 ''s'' (exec0, orch0) = (None, execution', st2)"
    "map_of (step_results execution') ''s'' = Some r2"
    and lg: "case get (agents st1) PROJECT of
         None \<Rightarrow> exec_log st2 = exec_log st1
       | Some b \<Rightarrow> length (exec_log st2) = length (exec_log st1) + 1"
    by (auto split: option.splits)
  from lg have "length (exec_log st2) = 2"
    by (simp add: a1 g2 l1)
  with r r2 show ?thesis by simp
qed


section \<open>Conditional steps\<close>

lemma retry_loop_calls_pos:
  "0 \<le> r \<Longrightarrow> retry_loop env st a prompt ctx step r le = (res, st') \<Longrightarrow>
     length (exec_log st) < length (exec_log st')"
proof -
  assume r: "0 \<le> r" and l: "retry_loop env st a prompt ctx step r le = (res, st')"
  obtain out st1 where ce: "call_execute env st a prompt ctx = (out, st1)"
    by (cases "call_execute env st a prompt ctx")
  then have l1: "exec_log st1 = exec_log st @ [(agent_kind a, prompt)]"
    by (auto simp: call_execute_def)
  have "st' = st1 \<or> (\<exists>le'. retry_loop env st1 a prompt ctx step (r - 1) le' = (res, st'))"
    using l r ce by (subst (asm) retry_loop.simps) (auto split: exec_outcome.splits if_splits)
  then show ?thesis
  proof
    assume "st' = st1" with l1 show ?thesis by simp
  next
    assume "\<exists>le'. retry_loop env st1 a prompt ctx step (r - 1) le' = (res, st')"
    then obtain le' where "retry_loop env st1 a prompt ctx step (r - 1) le' = (res, st')" ..
    from retry_loop_calls[OF this] l1 show ?thesis by auto
  qed
qed

lemma execute_workflow_step_log:
  "execute_workflow_step env st step execution ctx wi = (res, st') \<Longrightarrow>
     length (exec_log st) \<le> length (exec_log st') \<and>
     (\<forall>a. get (agents st) (ws_agent step) = Some a \<and> 0 \<le> retries step \<longrightarrow>
          length (exec_log st) < length (exec_log st'))"
proof (cases "get (agents st) (ws_agent step)")
  case None
  assume "execute_workflow_step env st step execution ctx wi = (res, st')"
  with None show ?thesis by (simp add: execute_workflow_step_def)
next
  case (Some a)
  assume "execute_workflow_step env st step execution ctx wi = (res, st')"
  with Some have rl: "retry_loop env st a
      (step_prompt env step (resolve_references env (ws_input step) execution wi)) ctx step
      (retries step) None = (res, st')"
    by (simp add: execute_workflow_step_def Let_def)
  from retry_loop_calls[OF rl] have "length (exec_log st) \<le> length (exec_log st')" by auto
  moreover have "0 \<le> retries step \<Longrightarrow> length (exec_log st) < length (exec_log st')"
    by (rule retry_loop_calls_pos[OF _ rl])
  ultimately show ?thesis by blast
qed

lemma handle_step_failure_recorded:
  assumes h: "handle_step_failure env wi ctx step result
                (record_result (ws_id step) result ex1, st1) = (e, ex', st')"
    and s: "sr_status result = Completed \<or> sr_status result = Failed"
  shows "\<exists>r. map_of (step_results ex') (ws_id step) = Some r \<and>
             (sr_status r = Completed \<or> sr_status r = Failed) \<and>
             (sr_status result = Completed \<longrightarrow> r = result \<and> e = None \<and> st' = st1) \<and>
             length (exec_log st1) \<le> length (exec_log st')"
proof (cases "sr_status result = Failed \<and> on_error step = OnFallback \<and> fallback_agent step \<noteq> None")
  case False
  with h have "ex' = record_result (ws_id step) result ex1" and "st' = st1"
    and "sr_status result = Completed \<longrightarrow> e = None"
    by (auto simp: handle_step_failure_def split: if_splits option.splits)
  with s show ?thesis by (simp add: map_of_record_result)
next
  case True
  then obtain fb where fb: "fallback_agent step = Some fb" by auto
  obtain r2 st2 where x2: "execute_workflow_step env st1 (fallback_step step fb)
      (record_result (ws_id step) result ex1) ctx wi = (r2, st2)"
    by (cases "execute_workflow_step env st1 (fallback_step step fb)
      (record_result (ws_id step) result ex1) ctx wi")
  with h True fb have "ex' = record_result (ws_id step) r2 (record_result (ws_id step) result ex1)"
    and "st' = st2"
    by (auto simp: handle_step_failure_def)
  moreover note execute_workflow_step_output[OF x2] execute_workflow_step_log[OF x2]
  ultimately show ?thesis using True by (auto simp: map_of_record_result)
qed

text \<open>
  C8, as the claim states it, fails: an \<open>if\<close> condition on \<open>steps.a\<close> lets the step proceed
  when step \<open>a\<close> has no recorded result at all, so no recorded status that is completed.
\<close>

theorem evaluate_condition_unrecorded_counterexample:
  "evaluate_condition \<lparr>wc_type = CondIf, wc_expression = Some ''steps.a'', wc_value = None\<rparr>
     exec0 [] = True
   \<and> map_of (step_results exec0) ''a'' = None"
  by (simp add: evaluate_condition_def exec0_def starts_with_def)

text \<open>
  C8, amended. For a condition of type \<open>if\<close> or \<open>unless\<close> whose expression starts with
  \<open>steps.\<close> and names the step \<open>sid\<close>: when \<open>sid\<close> has a recorded result, the step proceeds
  exactly when the recorded status is completed (\<open>if\<close>) or is not completed (\<open>unless\<close>);
  when \<open>sid\<close> has no recorded result, the step proceeds. A condition of type \<open>always\<close>, or
  without an expression, or with an expression that does not start with \<open>steps.\<close>,
  proceeds. A step whose dependencies are satisfied and whose condition evaluates to
  false is not executed: the state of the providers is left as it is, the result recorded
  under its id has the status skipped, no output and no error, nothing else changes, a step
  that depends on it alone has its dependencies satisfied, and the loop goes on with the
  next step. A step whose dependencies are satisfied and that has no condition, or a
  condition that evaluates to true, is executed: the loop body is
  \<open>_execute_workflow_step\<close> on that step followed by the handling of a failure, the result
  recorded under its id is completed or failed, never skipped, it is the result of the
  execution when that is completed, and the provider has been called when it is registered
  and the retry count is not negative.
\<close>

theorem condition_gates_step:
  "((wc_type c = CondIf \<or> wc_type c = CondUnless) \<and> wc_expression c = Some e \<and>
      starts_with ''steps.'' e \<and> split_on CHR ''.'' e ! 1 = sid \<longrightarrow>
      evaluate_condition c execution inp =
        (case map_of (step_results execution) sid of
           None \<Rightarrow> True
         | Some r \<Rightarrow>
             if wc_type c = CondIf then sr_status r = Completed else sr_status r \<noteq> Completed))
   \<and> (wc_type c = CondAlways \<or> wc_expression c = None \<or>
        (\<exists>e'. wc_expression c = Some e' \<and> \<not> starts_with ''steps.'' e') \<longrightarrow>
        evaluate_condition c execution inp)
   \<and> (find (\<lambda>s. ws_id s = step_id) (wd_steps workflow) = Some step \<and>
        dependencies_satisfied step (execution\<lparr>we_current_step := Some step_id\<rparr>) \<and>
        ws_condition step = Some c \<and>
        \<not> evaluate_condition c (execution\<lparr>we_current_step := Some step_id\<rparr>) inp \<longrightarrow>
        (\<exists>execution'.
           run_step env workflow inp context step_id (execution, st) = (None, execution', st) \<and>
           map_of (step_results execution') step_id = Some (step_result step Skipped None None) \<and>
           map_of (step_results execution') step_id
             = Some \<lparr>sr_step_id = step_id, sr_status = Skipped, sr_output = None,
                     sr_error = None, sr_agent_type = ws_agent step\<rparr> \<and>
           (\<forall>k. k \<noteq> step_id \<longrightarrow>
                map_of (step_results execution') k = map_of (step_results execution) k) \<and>
           dependencies_loop [step_id] (step_results execution') \<and>
           (\<forall>d. depends_on d = [step_id] \<longrightarrow> dependencies_satisfied d execution') \<and>
           orchestrate_loop env workflow inp context (step_id # rest) (execution, st)
             = orchestrate_loop env workflow inp context rest (execution', st)))
   \<and> (find (\<lambda>s. ws_id s = step_id) (wd_steps workflow) = Some step \<and>
        dependencies_satisfied step (execution\<lparr>we_current_step := Some step_id\<rparr>) \<and>
        (ws_condition step = None \<or>
         (\<exists>c'. ws_condition step = Some c' \<and>
               evaluate_condition c' (execution\<lparr>we_current_step := Some step_id\<rparr>) inp)) \<longrightarrow>
        (\<exists>result st1 ex execution' st' r.
           execute_workflow_step env st step (execution\<lparr>we_current_step := Some step_id\<rparr>)
             context inp = (result, st1) \<and>
           run_step env workflow inp context step_id (execution, st) = (ex, execution', st') \<and>
           run_step env workflow inp context step_id (execution, st)
             = handle_step_failure env inp context step result
                 (record_result step_id result (execution\<lparr>we_current_step := Some step_id\<rparr>),
                  st1) \<and>
           map_of (step_results execution') step_id = Some r \<and>
           (sr_status r = Completed \<or> sr_status r = Failed) \<and>
           (sr_status result = Completed \<longrightarrow> r = result \<and> ex = None) \<and>
           length (exec_log st) \<le> length (exec_log st') \<and>
           (\<forall>a. get (agents st) (ws_agent step) = Some a \<and> 0 \<le> retries step \<longrightarrow>
                length (exec_log st) < length (exec_log st'))))"
proof (intro conjI impI)
  assume h: "(wc_type c = CondIf \<or> wc_type c = CondUnless) \<and> wc_expression c = Some e \<and>
      starts_with ''steps.'' e \<and> split_on CHR ''.'' e ! 1 = sid"
  then have "e \<noteq> []" by (auto simp: starts_with_def)
  with h show "evaluate_condition c execution inp =
        (case map_of (step_results execution) sid of
           None \<Rightarrow> True
         | Some r \<Rightarrow>
             if wc_type c = CondIf then sr_status r = Completed else sr_status r \<noteq> Completed)"
    by (auto simp: evaluate_condition_def Let_def split: option.splits)
next
  assume "wc_type c = CondAlways \<or> wc_expression c = None \<or>
        (\<exists>e'. wc_expression c = Some e' \<and> \<not> starts_with ''steps.'' e')"
  then show "evaluate_condition c execution inp"
    by (auto simp: evaluate_condition_def)
next
  assume h: "find (\<lambda>s. ws_id s = step_id) (wd_steps workflow) = Some step \<and>
        dependencies_satisfied step (execution\<lparr>we_current_step := Some step_id\<rparr>) \<and>
        ws_condition step = Some c \<and>
        \<not> evaluate_condition c (execution\<lparr>we_current_step := Some step_id\<rparr>) inp"
  let ?e = "record_result step_id (step_result step Skipped None None)
              (execution\<lparr>we_current_step := Some step_id\<rparr>)"
  from h have id: "ws_id step = step_id" by (auto simp: find_Some_iff)
  have rs: "run_step env workflow inp context step_id (execution, st) = (None, ?e, st)"
    using h by (simp add: run_step_def)
  have m: "\<And>k. map_of (step_results ?e) k
             = (if k = step_id then Some (step_result step Skipped None None)
                else map_of (step_results execution) k)"
    by (simp add: map_of_record_result)
  have f: "step_result step Skipped None None
             = \<lparr>sr_step_id = step_id, sr_status = Skipped, sr_output = None,
                     sr_error = None, sr_agent_type = ws_agent step\<rparr>"
    by (simp add: step_result_def id)
  have d: "dependencies_loop [step_id] (step_results ?e)"
    by (simp add: dependencies_loop_iff map_of_record_result) (simp add: step_result_def)
  have d2: "\<forall>d. depends_on d = [step_id] \<longrightarrow> dependencies_satisfied d ?e"
    using d by (simp add: dependencies_satisfied_def)
  have l: "orchestrate_loop env workflow inp context (step_id # rest) (execution, st)
             = orchestrate_loop env workflow inp context rest (?e, st)"
    using rs by simp
  show "\<exists>execution'.
           run_step env workflow inp context step_id (execution, st) = (None, execution', st) \<and>
           map_of (step_results execution') step_id = Some (step_result step Skipped None None) \<and>
           map_of (step_results execution') step_id
             = Some \<lparr>sr_step_id = step_id, sr_status = Skipped, sr_output = None,
                     sr_error = None, sr_agent_type = ws_agent step\<rparr> \<and>
           (\<forall>k. k \<noteq> step_id \<longrightarrow>
                map_of (step_results execution') k = map_of (step_results execution) k) \<and>
           dependencies_loop [step_id] (step_results execution') \<and>
           (\<forall>d. depends_on d = [step_id] \<longrightarrow> dependencies_satisfied d execution') \<and>
           orchestrate_loop env workflow inp context (step_id # rest) (execution, st)
             = orchestrate_loop env workflow inp context rest (execution', st)"
    by (rule exI[of _ ?e]) (use rs m d d2 l f in simp)
next
  assume h: "find (\<lambda>s. ws_id s = step_id) (wd_steps workflow) = Some step \<and>
        dependencies_satisfied step (execution\<lparr>we_current_step := Some step_id\<rparr>) \<and>
        (ws_condition step = None \<or>
         (\<exists>c'. ws_condition step = Some c' \<and>
               evaluate_condition c' (execution\<lparr>we_current_step := Some step_id\<rparr>) inp))"
  let ?e1 = "execution\<lparr>we_current_step := Some step_id\<rparr>"
  from h have id: "ws_id step = step_id" by (auto simp: find_Some_iff)
  obtain result st1 where x: "execute_workflow_step env st step ?e1 context inp = (result, st1)"
    by (cases "execute_workflow_step env st step ?e1 context inp")
  have nc: "\<not> (case ws_condition step of None \<Rightarrow> False
                | Some c \<Rightarrow> \<not> evaluate_condition c ?e1 inp)"
    using h by (cases "ws_condition step") auto
  have rs: "run_step env workflow inp context step_id (execution, st)
              = handle_step_failure env inp context step result
                  (record_result step_id result ?e1, st1)"
    using h nc x by (simp add: run_step_def Let_def)
  obtain ex execution' st' where hs: "handle_step_failure env inp context step result
                  (record_result step_id result ?e1, st1) = (ex, execution', st')"
    by (cases "handle_step_failure env inp context step result
                  (record_result step_id result ?e1, st1)")
  from execute_workflow_step_output[OF x]
  have so: "sr_status result = Completed \<or> sr_status result = Failed" by blast
  from handle_step_failure_recorded[OF hs[folded id] so] id
  obtain r where r: "map_of (step_results execution') step_id = Some r"
    "sr_status r = Completed \<or> sr_status r = Failed"
    "sr_status result = Completed \<longrightarrow> r = result \<and> ex = None"
    "length (exec_log st1) \<le> length (exec_log st')"
    by auto
  note lg = execute_workflow_step_log[OF x]
  have lg1: "length (exec_log st) \<le> length (exec_log st')" using lg r(4) by simp
  have lg2: "\<forall>a. get (agents st) (ws_agent step) = Some a \<and> 0 \<le> retries step \<longrightarrow>
                length (exec_log st) < length (exec_log st')"
    using lg r(4) by auto
  show "\<exists>result st1 ex execution' st' r.
           execute_workflow_step env st step ?e1 context inp = (result, st1) \<and>
           run_step env workflow inp context step_id (execution, st) = (ex, execution', st') \<and>
           run_step env workflow inp context step_id (execution, st)
             = handle_step_failure env inp context step result
                 (record_result step_id result ?e1, st1) \<and>
           map_of (step_results execution') step_id = Some r \<and>
           (sr_status r = Completed \<or> sr_status r = Failed) \<and>
           (sr_status result = Completed \<longrightarrow> r = result \<and> ex = None) \<and>
           length (exec_log st) \<le> length (exec_log st') \<and>
           (\<forall>a. get (agents st) (ws_agent step) = Some a \<and> 0 \<le> retries step \<longrightarrow>
                length (exec_log st) < length (exec_log st'))"
    apply (rule exI[of _ result], rule exI[of _ st1], rule exI[of _ ex],
           rule exI[of _ execution'], rule exI[of _ st'], rule exI[of _ r])
    using x rs hs r(1,2,3) lg1 lg2 by simp
qed


theorem condition_gates_step_witness:
  "evaluate_condition cond_if_a (exec_with [(''a'', mk_result ''a'' Failed None)]) [] = False \<and>
   evaluate_condition \<lparr>wc_type = CondAlways, wc_expression = None, wc_value = None\<rparr> exec0 [] \<and>
   (\<exists>execution'.
      run_step (env_of (\<lambda>_. Raised (OtherException ''x'')))
        (mk_workflow [mk_step ''a'' TASK [], step_b_if_a] Continue) [] ctx0 ''b''
        (exec_with [(''a'', mk_result ''a'' Skipped None)], orch0) = (None, execution', orch0) \<and>
      map_of (step_results execution') ''b''
        = Some \<lparr>sr_step_id = ''b'', sr_status = Skipped, sr_output = None, sr_error = None,
                sr_agent_type = PROJECT\<rparr>) \<and>
   (\<exists>execution' st'.
      run_step (env_of (\<lambda>_. Returned (result_of COMPLETED [(''x'', PStr ''42'')] None)))
        (mk_workflow [mk_step ''a'' TASK [], step_b_if_a] Continue) [] ctx0 ''b''
        (exec_with [(''a'', mk_result ''a'' Completed None)], orch0) = (None, execution', st') \<and>
      map_of (step_results execution') ''b''
        = Some \<lparr>sr_step_id = ''b'', sr_status = Completed,
                sr_output = Some [(''x'', PStr ''42'')], sr_error = None,
                sr_agent_type = PROJECT\<rparr> \<and>
      0 < length (exec_log st'))"
proof -
  let ?ex = "exec_with [(''a'', mk_result ''a'' Skipped None)]"
  let ?wf = "mk_workflow [mk_step ''a'' TASK [], step_b_if_a] Continue"
  have sp: "split_on CHR ''.'' ''steps.a'' ! 1 = ''a''" by simp
  have sw: "starts_with ''steps.'' ''steps.a''" by (simp add: starts_with_def)
  have f: "find (\<lambda>s. ws_id s = ''b'') (wd_steps ?wf) = Some step_b_if_a"
    by (simp add: mk_workflow_def mk_step_def step_b_if_a_def)
  have d: "dependencies_satisfied step_b_if_a (?ex\<lparr>we_current_step := Some ''b''\<rparr>)"
    by (simp add: dependencies_satisfied_def step_b_if_a_def mk_step_def exec_with_def exec0_def
        mk_result_def)
  have c: "ws_condition step_b_if_a = Some cond_if_a"
    by (simp add: step_b_if_a_def mk_step_def)
  have ne: "\<not> evaluate_condition cond_if_a (?ex\<lparr>we_current_step := Some ''b''\<rparr>) []"
    by (simp add: evaluate_condition_def cond_if_a_def starts_with_def exec_with_def exec0_def
        mk_result_def)
  have t: "wc_type cond_if_a = CondIf" "wc_expression cond_if_a = Some ''steps.a''"
    by (simp_all add: cond_if_a_def)
  have ag: "ws_agent step_b_if_a = PROJECT" by (simp add: step_b_if_a_def mk_step_def)
  from condition_gates_step[where c = cond_if_a and e = "''steps.a''" and sid = "''a''"
      and execution = "exec_with [(''a'', mk_result ''a'' Failed None)]" and inp = "[]"]
    t sp sw
  have w1: "evaluate_condition cond_if_a (exec_with [(''a'', mk_result ''a'' Failed None)]) [] = False"
    by (simp add: exec_with_def exec0_def mk_result_def)
  from condition_gates_step[where c = "\<lparr>wc_type = CondAlways, wc_expression = None, wc_value = None\<rparr>"
      and execution = exec0 and inp = "[]"]
  have w2: "evaluate_condition \<lparr>wc_type = CondAlways, wc_expression = None, wc_value = None\<rparr> exec0 []"
    by simp
  from condition_gates_step[of cond_if_a _ _ "?ex" "[]" "''b''" "?wf" step_b_if_a
      "env_of (\<lambda>_. Raised (OtherException ''x''))" ctx0 orch0]
    f d c ne
  have w3: "\<exists>execution'.
      run_step (env_of (\<lambda>_. Raised (OtherException ''x''))) ?wf [] ctx0 ''b'' (?ex, orch0)
        = (None, execution', orch0) \<and>
      map_of (step_results execution') ''b''
        = Some \<lparr>sr_step_id = ''b'', sr_status = Skipped, sr_output = None, sr_error = None,
                sr_agent_type = PROJECT\<rparr>"
    unfolding ag by blast
  let ?ex2 = "exec_with [(''a'', mk_result ''a'' Completed None)]"
  let ?env = "env_of (\<lambda>_. Returned (result_of COMPLETED [(''x'', PStr ''42'')] None))"
  let ?a = "const_agent PROJECT True (1/2)"
  let ?res = "\<lparr>sr_step_id = ''b'', sr_status = Completed,
                sr_output = Some [(''x'', PStr ''42'')], sr_error = None,
                sr_agent_type = PROJECT\<rparr>"
  have d2: "dependencies_satisfied step_b_if_a (?ex2\<lparr>we_current_step := Some ''b''\<rparr>)"
    by (simp add: dependencies_satisfied_def step_b_if_a_def mk_step_def exec_with_def exec0_def
        mk_result_def)
  have ev: "evaluate_condition cond_if_a (?ex2\<lparr>we_current_step := Some ''b''\<rparr>) []"
    by (simp add: evaluate_condition_def cond_if_a_def starts_with_def exec_with_def exec0_def
        mk_result_def)
  have g: "get (agents orch0) (ws_agent step_b_if_a) = Some ?a"
    by (simp add: orch0_def registry2_def register_def get_def const_agent_def mk_step_def
        step_b_if_a_def)
  have r: "retries step_b_if_a = 0" by (simp add: step_b_if_a_def mk_step_def)
  have x: "\<And>prompt le. fst (retry_loop ?env orch0 ?a prompt ctx0 step_b_if_a 0 le) = ?res"
    by (subst retry_loop_success[where i = 0 and res_i = "result_of COMPLETED [(''x'', PStr ''42'')] None"])
       (simp_all add: env_of_def result_of_def step_result_def step_b_if_a_def mk_step_def)
  have xs: "fst (execute_workflow_step ?env orch0 step_b_if_a
               (?ex2\<lparr>we_current_step := Some ''b''\<rparr>) ctx0 []) = ?res"
    using g r x by (simp add: execute_workflow_step_def Let_def)
  have pre: "find (\<lambda>s. ws_id s = ''b'') (wd_steps ?wf) = Some step_b_if_a \<and>
        dependencies_satisfied step_b_if_a (?ex2\<lparr>we_current_step := Some ''b''\<rparr>) \<and>
        (ws_condition step_b_if_a = None \<or>
         (\<exists>c'. ws_condition step_b_if_a = Some c' \<and>
               evaluate_condition c' (?ex2\<lparr>we_current_step := Some ''b''\<rparr>) []))"
    using f d2 c ev by simp
  note T = condition_gates_step[of cond_if_a "[]" "[]" "?ex2" "[]" "''b''" "?wf" step_b_if_a
      ?env ctx0 orch0 "[]"]
  note T4 = T[THEN conjunct2, THEN conjunct2, THEN conjunct2, THEN mp, OF pre]
  from T4 obtain result st1 ex execution' st' r' where o:
    "execute_workflow_step ?env orch0 step_b_if_a (?ex2\<lparr>we_current_step := Some ''b''\<rparr>)
       ctx0 [] = (result, st1)"
    "run_step ?env ?wf [] ctx0 ''b'' (?ex2, orch0) = (ex, execution', st')"
    "map_of (step_results execution') ''b'' = Some r'"
    "sr_status result = Completed \<longrightarrow> r' = result \<and> ex = None"
    "\<forall>a. get (agents orch0) (ws_agent step_b_if_a) = Some a \<and> 0 \<le> retries step_b_if_a \<longrightarrow>
                length (exec_log orch0) < length (exec_log st')"
    by (elim exE conjE) (rule that)
  from o(1) xs have res: "result = ?res" by simp
  with o(4) have "r' = ?res" "ex = None" by simp_all
  moreover from o(5) g r have "0 < length (exec_log st')" by auto
  ultimately have w4: "\<exists>execution' st'.
      run_step ?env ?wf [] ctx0 ''b'' (?ex2, orch0) = (None, execution', st') \<and>
      map_of (step_results execution') ''b'' = Some ?res \<and>
      0 < length (exec_log st')"
    using o(2,3) by blast
  from w1 w2 w3 w4 show ?thesis by blast
qed


section \<open>Reference resolution\<close>

lemma strip_ref: "strip ''steps.a.output.x'' = ''steps.a.output.x''"
  by (simp add: strip_def is_space_def)

lemma split_ref: "split_on CHR ''.'' ''steps.a.output.x'' = [''steps'', ''a'', ''output'', ''x'']"
  by simp

lemma replacer_ref_42:
  "map_of (step_results execution) ''a'' = Some r \<Longrightarrow> sr_output r = Some [(''x'', PStr ''42'')] \<Longrightarrow>
   replacer env execution wi ''steps.a.output.x'' = ''42''"
  by (simp add: replacer_def strip_ref starts_with_def Let_def)

lemma replacer_ref_empty:
  "map_of (step_results execution) ''a'' = None \<or>
   (\<exists>r. map_of (step_results execution) ''a'' = Some r \<and> sr_output r = None) \<Longrightarrow>
   replacer env execution wi ''steps.a.output.x'' = []"
  by (auto simp add: replacer_def strip_ref starts_with_def Let_def)


lemma re_sub_skip:
  "match_template (c # cs) = None \<Longrightarrow> re_sub f (c # cs) = c # re_sub f cs"
  by (simp add: re_sub.simps(2))

lemma re_sub_match:
  "match_template (c # cs) = Some (body, rest) \<Longrightarrow> re_sub f (c # cs) = f body @ re_sub f rest"
  by (simp add: re_sub.simps(2))

lemma re_sub_no_open:
  "\<not> ends_open b \<Longrightarrow> re_sub f (b @ r) = b @ re_sub f r"
proof (induction b rule: ends_open.induct)
  case 1
  then show ?case by simp
next
  case (2 c)
  then have "match_template (c # r) = None"
    by (simp add: match_template_def starts_with_def)
  then show ?case by (simp add: re_sub_skip)
next
  case (3 c d cs)
  then have "\<not> starts_with ''{{'' (c # d # cs @ r)"
    by (auto simp: starts_with_def)
  then have "match_template (c # d # cs @ r) = None"
    by (simp add: match_template_def)
  then have "re_sub f (c # d # cs @ r) = c # re_sub f (d # cs @ r)"
    by (rule re_sub_skip)
  with 3 show ?case by simp
qed

lemma re_sub_template:
  "body \<noteq> [] \<Longrightarrow> CHR ''}'' \<notin> set body \<Longrightarrow>
   re_sub f (''{{'' @ body @ ''}}'' @ post) = f body @ re_sub f post"
proof -
  assume b: "body \<noteq> []" "CHR ''}'' \<notin> set body"
  have t: "takeWhile (\<lambda>c. c \<noteq> CHR ''}'') (body @ CHR ''}'' # CHR ''}'' # post) = body"
    using b(2) by (subst takeWhile_append2) auto
  have d: "dropWhile (\<lambda>c. c \<noteq> CHR ''}'') (body @ CHR ''}'' # CHR ''}'' # post)
            = CHR ''}'' # CHR ''}'' # post"
    using b(2) by (subst dropWhile_append2) auto
  have "match_template (CHR ''{'' # CHR ''{'' # body @ ''}}'' @ post) = Some (body, post)"
    using b(1) by (simp add: match_template_def starts_with_def t d)
  from re_sub_match[OF this] show ?thesis by simp
qed

text \<open>A text that ends with a closing brace, followed by one that does not start with one.\<close>

lemma match_template_append:
  assumes "a \<noteq> []" "last a = CHR ''}''" "r = [] \<or> hd r \<noteq> CHR ''}''"
  shows "match_template (a @ r)
           = (case match_template a of None \<Rightarrow> None | Some (b, rest) \<Rightarrow> Some (b, rest @ r))"
    and "match_template a = Some (b, rest) \<Longrightarrow> rest = [] \<or> last rest = CHR ''}''"
proof -
  let ?P = "\<lambda>c. c \<noteq> CHR ''}''"
  show "match_template (a @ r)
           = (case match_template a of None \<Rightarrow> None | Some (b, rest) \<Rightarrow> Some (b, rest @ r))"
  proof (cases "starts_with ''{{'' a")
    case False
    have "\<not> starts_with ''{{'' (a @ r)"
    proof (cases a)
      case Nil with assms show ?thesis by simp
    next
      case (Cons c cs)
      show ?thesis
      proof (cases cs)
        case Nil
        with Cons assms have "c = CHR ''}''" by simp
        with Cons Nil show ?thesis by (simp add: starts_with_def)
      next
        case (Cons d ds)
        with \<open>a = c # cs\<close> False show ?thesis by (simp add: starts_with_def)
      qed
    qed
    with False show ?thesis by (simp add: match_template_def)
  next
    case True
    then obtain a2 where a: "a = CHR ''{'' # CHR ''{'' # a2"
      by (cases a; cases "tl a") (auto simp: starts_with_def)
    with assms have a2: "a2 \<noteq> []" "last a2 = CHR ''}''" by (auto split: if_splits)
    then have mem: "CHR ''}'' \<in> set a2" by (metis last_in_set)
    have tw: "takeWhile ?P (a2 @ r) = takeWhile ?P a2"
      using mem by (intro takeWhile_append1[of "CHR ''}''"]) auto
    have dw: "dropWhile ?P (a2 @ r) = dropWhile ?P a2 @ r"
      using mem by (intro dropWhile_append1[of "CHR ''}''"]) auto
    obtain d' where d: "dropWhile ?P a2 = CHR ''}'' # d'"
      using mem by (cases "dropWhile ?P a2") (auto simp: dropWhile_eq_Cons_conv dropWhile_eq_Nil_conv)
    have sw: "starts_with ''}}'' (dropWhile ?P a2 @ r) = starts_with ''}}'' (dropWhile ?P a2)"
      using assms(3) unfolding d by (cases d'; cases r) (auto simp: starts_with_def)
    have dr: "starts_with ''}}'' (dropWhile ?P a2) \<Longrightarrow>
              drop 2 (dropWhile ?P a2 @ r) = drop 2 (dropWhile ?P a2) @ r"
      unfolding d by (cases d') (auto simp: starts_with_def)
    show ?thesis
      using a sw dr by (auto simp: match_template_def Let_def tw dw starts_with_def[of "''{{''"])
  qed
  show "rest = [] \<or> last rest = CHR ''}''" if m: "match_template a = Some (b, rest)"
  proof -
    from m have sw: "starts_with ''{{'' a" by (auto simp: match_template_def split: if_splits)
    then obtain a2 where a: "a = CHR ''{'' # CHR ''{'' # a2"
      by (cases a; cases "tl a") (auto simp: starts_with_def)
    with assms have a2: "a2 \<noteq> []" "last a2 = CHR ''}''" by (auto split: if_splits)
    from m a have r: "rest = drop 2 (dropWhile ?P a2)"
      by (auto simp: match_template_def Let_def starts_with_def split: if_splits)
    have "a2 = takeWhile ?P a2 @ dropWhile ?P a2" by simp
    then obtain t where "a2 = t @ dropWhile ?P a2" ..
    moreover have "dropWhile ?P a2 = take 2 (dropWhile ?P a2) @ rest" using r by simp
    ultimately obtain u where u: "a2 = u @ rest" by (metis append.assoc)
    show ?thesis
    proof (cases "rest = []")
      case True then show ?thesis by simp
    next
      case False
      with u a2 show ?thesis by (metis last_appendR)
    qed
  qed
qed


lemma re_sub_append_closed:
  "a \<noteq> [] \<Longrightarrow> last a = CHR ''}'' \<Longrightarrow> r = [] \<or> hd r \<noteq> CHR ''}'' \<Longrightarrow>
   re_sub f (a @ r) = re_sub f a @ re_sub f r"
proof (induction a rule: length_induct)
  case (1 a)
  then obtain c cs where a: "a = c # cs" by (cases a) auto
  note ma = match_template_append[OF "1.prems"]
  show ?case
  proof (cases "match_template a")
    case None
    with ma(1) have n: "match_template (c # cs @ r) = None" by (simp add: a)
    have l: "re_sub f (a @ r) = c # re_sub f (cs @ r)"
      using re_sub_skip[OF n] by (simp add: a)
    have l2: "re_sub f a = c # re_sub f cs"
      using None re_sub_skip[of c cs f] by (simp add: a)
    show ?thesis
    proof (cases "cs = []")
      case True
      with l l2 show ?thesis by simp
    next
      case False
      with "1.prems" a have "last cs = CHR ''}''" by simp
      with False "1.IH" "1.prems"(3) a have "re_sub f (cs @ r) = re_sub f cs @ re_sub f r"
        by simp
      with l l2 show ?thesis by simp
    qed
  next
    case (Some p)
    obtain b rest where p: "p = (b, rest)" by (cases p)
    with Some ma(1) have m: "match_template (c # cs @ r) = Some (b, rest @ r)" by (simp add: a)
    have l: "re_sub f (a @ r) = f b @ re_sub f (rest @ r)"
      using re_sub_match[OF m] by (simp add: a)
    have l2: "re_sub f a = f b @ re_sub f rest"
      using Some p re_sub_match[of c cs b rest f] by (simp add: a)
    have sh: "length rest < length a"
      using Some p by (auto dest: match_template_shorter)
    show ?thesis
    proof (cases "rest = []")
      case True
      with l l2 show ?thesis by simp
    next
      case False
      with ma(2)[of b rest] Some p have "last rest = CHR ''}''" by simp
      with False "1.IH" sh "1.prems"(3) have "re_sub f (rest @ r) = re_sub f rest @ re_sub f r"
        by simp
      with l l2 show ?thesis by simp
    qed
  qed
qed

lemma split_at_last_close:
  "\<exists>a. a @ after_last_close pre = pre \<and> (a = [] \<or> last a = CHR ''}'')
        \<and> CHR ''}'' \<notin> set (after_last_close pre)"
proof -
  let ?P = "\<lambda>c. c \<noteq> CHR ''}''"
  let ?a = "rev (dropWhile ?P (rev pre))"
  have "?a @ rev (takeWhile ?P (rev pre)) = rev (takeWhile ?P (rev pre) @ dropWhile ?P (rev pre))"
    by (simp only: rev_append)
  also have "\<dots> = pre"
    by (simp only: takeWhile_dropWhile_id rev_rev_ident)
  finally have 1: "?a @ after_last_close pre = pre"
    by (simp only: after_last_close_def)
  have 2: "?a = [] \<or> last ?a = CHR ''}''"
  proof (cases "dropWhile ?P (rev pre)")
    case Nil then show ?thesis by simp
  next
    case (Cons x xs)
    have "\<not> ?P (hd (dropWhile ?P (rev pre)))"
      by (rule hd_dropWhile) (simp add: Cons)
    then have "x = CHR ''}''" by (simp add: Cons)
    then show ?thesis by (simp add: Cons)
  qed
  have 3: "CHR ''}'' \<notin> set (after_last_close pre)"
  proof
    assume "CHR ''}'' \<in> set (after_last_close pre)"
    then have "CHR ''}'' \<in> set (takeWhile ?P (rev pre))" by (simp add: after_last_close_def)
    from set_takeWhileD[OF this] show False by simp
  qed
  show ?thesis
    by (rule exI[of _ ?a]) (intro conjI 1 2 3)
qed

lemma re_sub_reaches_template:
  assumes "template_reached pre" "body \<noteq> []" "CHR ''}'' \<notin> set body"
  shows "re_sub f (pre @ ''{{'' @ body @ ''}}'' @ post) = re_sub f pre @ f body @ re_sub f post"
proof -
  define b where "b = after_last_close pre"
  define t where "t = ''{{'' @ body @ ''}}'' @ post"
  from split_at_last_close[of pre] obtain a where
    a: "a @ b = pre" "a = [] \<or> last a = CHR ''}''" "CHR ''}'' \<notin> set b"
    unfolding b_def by blast
  from assms(1) have no: "\<not> ends_open b" by (simp add: template_reached_def b_def)
  have th: "t \<noteq> []" "hd t = CHR ''{''" by (simp_all add: t_def)
  have bt: "re_sub f (b @ t) = b @ f body @ re_sub f post"
    using re_sub_no_open[OF no, of f t] re_sub_template[OF assms(2,3), of f post]
    by (simp add: t_def)
  have b0: "re_sub f b = b"
    using re_sub_no_open[OF no, of f "[]"] by simp
  have goal: "re_sub f ((a @ b) @ t) = re_sub f (a @ b) @ f body @ re_sub f post"
  proof (cases "a = []")
    case True
    with bt b0 show ?thesis by simp
  next
    case False
    with a(2) have la: "last a = CHR ''}''" by simp
    have h1: "b @ t = [] \<or> hd (b @ t) \<noteq> CHR ''}''"
      using a(3) th by (cases b) auto
    have h2: "b = [] \<or> hd b \<noteq> CHR ''}''"
      using a(3) by (cases b) auto
    have "re_sub f ((a @ b) @ t) = re_sub f (a @ (b @ t))" by simp
    also have "\<dots> = re_sub f a @ re_sub f (b @ t)"
      by (rule re_sub_append_closed[OF False la h1])
    also have "\<dots> = re_sub f a @ b @ f body @ re_sub f post" by (simp only: bt)
    finally have L: "re_sub f ((a @ b) @ t) = re_sub f a @ b @ f body @ re_sub f post" .
    have "re_sub f (a @ b) = re_sub f a @ re_sub f b"
      by (rule re_sub_append_closed[OF False la h2])
    then have R: "re_sub f (a @ b) = re_sub f a @ b" by (simp only: b0)
    from L R show ?thesis by simp
  qed
  show ?thesis using goal unfolding a(1) t_def .
qed

lemma map_of_map_values:
  "map_of (map (\<lambda>kv. (fst kv, f (snd kv))) d) k = map_option f (map_of d k)"
  by (induction d) auto

lemma resolve_value_path:
  "lookup_path v p = Some w \<Longrightarrow>
   lookup_path (resolve_value env execution wi v) p = Some (resolve_value env execution wi w)"
proof (induction v p rule: lookup_path.induct)
  case (1 v)
  then show ?case by simp
next
  case (2 d k p)
  then show ?case
    by (cases "map_of d k") (simp_all add: map_of_map_values)
next
  case (3 xs i p)
  then show ?case by (simp split: if_splits)
qed simp_all

lemma resolve_references_path:
  "lookup_path (PDict input) p = Some (PStr s) \<Longrightarrow>
   lookup_path (resolve_references env input execution wi) p
     = Some (PStr (re_sub (replacer env execution wi) s))"
  unfolding resolve_references_def
  by (drule resolve_value_path[where env = env and execution = execution and wi = wi]) simp

lemma list_all_update:
  "list_all (\<lambda>(k, v). P v) xs \<Longrightarrow> P r \<Longrightarrow> list_all (\<lambda>(k, v). P v) (AList.update sid r xs)"
  by (induction xs) auto

lemma outputs_only_completed_record:
  "outputs_only_completed execution \<Longrightarrow> sr_status r = Completed \<or> sr_output r = None \<Longrightarrow>
   outputs_only_completed (record_result sid r execution)"
  unfolding outputs_only_completed_def record_result_def
  using list_all_update[of "\<lambda>r. sr_status r = Completed \<or> sr_output r = None"]
  by simp

lemma outputs_only_completed_lookup:
  "outputs_only_completed execution \<Longrightarrow> map_of (step_results execution) k = Some r \<Longrightarrow>
   sr_status r = Completed \<or> sr_output r = None"
  unfolding outputs_only_completed_def list_all_iff
  by (drule map_of_SomeD) auto

lemma outputs_only_completed_current:
  "outputs_only_completed (execution\<lparr>we_current_step := s\<rparr>) = outputs_only_completed execution"
  by (simp add: outputs_only_completed_def)

lemma outputs_only_completed_initial:
  "step_results execution = [] \<Longrightarrow> outputs_only_completed execution"
  by (simp add: outputs_only_completed_def)

lemma handle_step_failure_outputs:
  assumes h: "handle_step_failure env wi ctx step result (ex1, st1) = (e, ex', st')"
    and i: "outputs_only_completed ex1"
  shows "outputs_only_completed ex'"
proof (cases "sr_status result = Failed \<and> on_error step = OnFallback \<and> fallback_agent step \<noteq> None")
  case False
  with h have "ex' = ex1"
    by (auto simp: handle_step_failure_def split: if_splits option.splits)
  with i show ?thesis by simp
next
  case True
  then obtain fb where fb: "fallback_agent step = Some fb" by auto
  obtain r2 st2 where x2: "execute_workflow_step env st1 (fallback_step step fb) ex1 ctx wi
      = (r2, st2)"
    by (cases "execute_workflow_step env st1 (fallback_step step fb) ex1 ctx wi")
  with h True fb have "ex' = record_result (ws_id step) r2 ex1"
    by (auto simp: handle_step_failure_def)
  moreover from execute_workflow_step_output[OF x2]
  have "sr_status r2 = Completed \<or> sr_output r2 = None" by auto
  ultimately show ?thesis using i by (simp add: outputs_only_completed_record)
qed

lemma run_step_outputs:
  assumes r: "run_step env workflow wi ctx sid (execution, st) = (e, execution', st')"
    and i: "outputs_only_completed execution"
  shows "outputs_only_completed execution'"
proof (cases "find (\<lambda>s. ws_id s = sid) (wd_steps workflow)")
  case None
  with r have "execution' = execution" by (simp add: run_step_def)
  with i show ?thesis by simp
next
  case (Some step)
  let ?e1 = "execution\<lparr>we_current_step := Some sid\<rparr>"
  have i1: "outputs_only_completed ?e1" using i by (simp add: outputs_only_completed_current)
  show ?thesis
  proof (cases "dependencies_satisfied step ?e1")
    case False
    with r Some have "execution' = ?e1" by (auto simp: run_step_def Let_def split: if_splits)
    with i1 show ?thesis by simp
  next
    case d: True
    show ?thesis
    proof (cases "case ws_condition step of None \<Rightarrow> False
                  | Some c \<Rightarrow> \<not> evaluate_condition c ?e1 wi")
      case True
      with r Some d have "execution' = record_result sid (step_result step Skipped None None) ?e1"
        by (simp add: run_step_def)
      moreover have "sr_output (step_result step Skipped None None) = None"
        by (simp add: step_result_def)
      ultimately show ?thesis using i1 by (simp add: outputs_only_completed_record)
    next
      case False
      obtain result st1 where x: "execute_workflow_step env st step ?e1 ctx wi = (result, st1)"
        by (cases "execute_workflow_step env st step ?e1 ctx wi")
      from r Some d False x
      have h: "handle_step_failure env wi ctx step result (record_result sid result ?e1, st1)
                 = (e, execution', st')"
        by (simp add: run_step_def Let_def)
      from execute_workflow_step_output[OF x]
      have "sr_status result = Completed \<or> sr_output result = None" by auto
      with i1 have "outputs_only_completed (record_result sid result ?e1)"
        by (rule outputs_only_completed_record)
      with h show ?thesis by (rule handle_step_failure_outputs)
    qed
  qed
qed

lemma orchestrate_loop_outputs:
  "orchestrate_loop env workflow wi ctx order (execution, st) = (e, execution', st') \<Longrightarrow>
   outputs_only_completed execution \<Longrightarrow> outputs_only_completed execution'"
proof (induction order arbitrary: execution st)
  case Nil
  then show ?case by simp
next
  case (Cons sid rest)
  obtain e1 ex1 st1 where r: "run_step env workflow wi ctx sid (execution, st) = (e1, ex1, st1)"
    by (cases "run_step env workflow wi ctx sid (execution, st)")
  from run_step_outputs[OF r Cons.prems(2)] have i1: "outputs_only_completed ex1" .
  show ?case
  proof (cases e1)
    case None
    with Cons.prems(1) r have "orchestrate_loop env workflow wi ctx rest (ex1, st1)
        = (e, execution', st')" by simp
    from Cons.IH[OF this i1] show ?thesis .
  next
    case (Some x)
    with Cons.prems(1) r have "execution' = ex1" by simp
    with i1 show ?thesis by simp
  qed
qed

text \<open>
  C3, as the claim states it, fails: the text \<open>{{{steps.a.output.x}}\<close> contains the
  template, step \<open>a\<close> has recorded the output \<open>{x: "42"}\<close>, and the text is left as it is.
  The pattern matches from the first two braces, so group 1 is \<open>{steps.a.output.x\<close>, which
  is no reference the replacer knows.
\<close>

theorem resolve_nested_brace_counterexample:
  "resolve_value (env_of outcomes3) exec_a42 [] (PStr ''{{{steps.a.output.x}}'')
     = PStr ''{{{steps.a.output.x}}''
   \<and> map_of (step_results exec_a42) ''a''
       = Some (mk_result ''a'' Completed (Some [(''x'', PStr ''42'')]))
   \<and> resolve_references (env_of outcomes3) [(''t'', PStr ''{{{steps.a.output.x}}'')] exec_a42 []
       = PDict [(''t'', PStr ''{{{steps.a.output.x}}'')]"
  by (simp add: resolve_references_def re_sub.simps(2) match_template_def starts_with_def
      replacer_def strip_def is_space_def exec_a42_def exec_with_def)

text \<open>
  C3, amended. Let a text \<open>pre {{steps.a.output.x}} post\<close>, in which no earlier opening
  takes the template over (\<open>template_reached pre\<close>), stand at some place of the step input,
  however deep in its dicts and lists. In what \<open>_resolve_references\<close> returns, the text at
  that place has the template replaced by \<open>42\<close> when step \<open>a\<close> has a recorded result with the
  output \<open>{x: "42"}\<close>, and by the empty text when step \<open>a\<close> has no recorded result or a
  recorded result without output; the texts before and after are resolved on their own.
  A recorded result that is not completed is one without output in every execution that
  \<open>orchestrate\<close> goes through: the execution starts without results, and a turn of the loop,
  and so the whole loop, keeps the property that every recorded result is completed or has
  no output. Under that property the template is replaced by the empty text when the
  recorded result of step \<open>a\<close> is not completed.
\<close>

theorem resolve_step_output_reference:
  "template_reached pre \<Longrightarrow>
   lookup_path (PDict input) path = Some (PStr (pre @ ''{{steps.a.output.x}}'' @ post)) \<Longrightarrow>
   (map_of (step_results execution) ''a'' = Some r \<and> sr_output r = Some [(''x'', PStr ''42'')] \<longrightarrow>
      lookup_path (resolve_references env input execution wi) path
        = Some (PStr (re_sub (replacer env execution wi) pre @ ''42''
                      @ re_sub (replacer env execution wi) post)))
   \<and> (map_of (step_results execution) ''a'' = None \<or>
        (\<exists>r'. map_of (step_results execution) ''a'' = Some r' \<and> sr_output r' = None) \<longrightarrow>
      lookup_path (resolve_references env input execution wi) path
        = Some (PStr (re_sub (replacer env execution wi) pre
                      @ re_sub (replacer env execution wi) post)))
   \<and> (outputs_only_completed execution \<and>
        (\<exists>r'. map_of (step_results execution) ''a'' = Some r' \<and> sr_status r' \<noteq> Completed) \<longrightarrow>
      lookup_path (resolve_references env input execution wi) path
        = Some (PStr (re_sub (replacer env execution wi) pre
                      @ re_sub (replacer env execution wi) post)))
   \<and> (step_results execution = [] \<longrightarrow> outputs_only_completed execution)
   \<and> (outputs_only_completed execution \<longrightarrow>
        outputs_only_completed
          (fst (snd (run_step env workflow wi ctx sid (execution, st)))) \<and>
        outputs_only_completed
          (fst (snd (orchestrate_loop env workflow wi ctx order (execution, st)))))"
proof -
  assume tr: "template_reached pre"
    and lp: "lookup_path (PDict input) path = Some (PStr (pre @ ''{{steps.a.output.x}}'' @ post))"
  let ?f = "replacer env execution wi"
  let ?L = "lookup_path (resolve_references env input execution wi) path"
  have "re_sub ?f (pre @ ''{{'' @ ''steps.a.output.x'' @ ''}}'' @ post)
          = re_sub ?f pre @ ?f ''steps.a.output.x'' @ re_sub ?f post"
    by (rule re_sub_reaches_template[OF tr]) simp_all
  then have rs: "re_sub ?f (pre @ ''{{steps.a.output.x}}'' @ post)
          = re_sub ?f pre @ ?f ''steps.a.output.x'' @ re_sub ?f post"
    by simp
  have e: "?L = Some (PStr (re_sub ?f pre @ ?f ''steps.a.output.x'' @ re_sub ?f post))"
    using resolve_references_path[OF lp, of env execution wi] by (simp only: rs)
  have c1: "map_of (step_results execution) ''a'' = Some r \<and>
        sr_output r = Some [(''x'', PStr ''42'')] \<longrightarrow>
      ?L = Some (PStr (re_sub ?f pre @ ''42'' @ re_sub ?f post))"
    unfolding e using replacer_ref_42[of execution r env wi] by simp
  have c2: "map_of (step_results execution) ''a'' = None \<or>
        (\<exists>r'. map_of (step_results execution) ''a'' = Some r' \<and> sr_output r' = None) \<longrightarrow>
      ?L = Some (PStr (re_sub ?f pre @ re_sub ?f post))"
    unfolding e using replacer_ref_empty[of execution env wi] by simp
  have c3: "outputs_only_completed execution \<and>
        (\<exists>r'. map_of (step_results execution) ''a'' = Some r' \<and> sr_status r' \<noteq> Completed) \<longrightarrow>
      ?L = Some (PStr (re_sub ?f pre @ re_sub ?f post))"
  proof
    assume h: "outputs_only_completed execution \<and>
        (\<exists>r'. map_of (step_results execution) ''a'' = Some r' \<and> sr_status r' \<noteq> Completed)"
    then obtain r' where r': "map_of (step_results execution) ''a'' = Some r'"
      "sr_status r' \<noteq> Completed" by blast
    from outputs_only_completed_lookup[OF _ r'(1)] h r'(2) have "sr_output r' = None" by blast
    with r'(1) c2 show "?L = Some (PStr (re_sub ?f pre @ re_sub ?f post))" by blast
  qed
  have c4: "step_results execution = [] \<longrightarrow> outputs_only_completed execution"
    by (simp add: outputs_only_completed_initial)
  have c5: "outputs_only_completed execution \<longrightarrow>
        outputs_only_completed
          (fst (snd (run_step env workflow wi ctx sid (execution, st)))) \<and>
        outputs_only_completed
          (fst (snd (orchestrate_loop env workflow wi ctx order (execution, st))))"
  proof
    assume i: "outputs_only_completed execution"
    obtain e1 ex1 st1 where r: "run_step env workflow wi ctx sid (execution, st) = (e1, ex1, st1)"
      by (cases "run_step env workflow wi ctx sid (execution, st)")
    obtain e2 ex2 st2 where l: "orchestrate_loop env workflow wi ctx order (execution, st)
        = (e2, ex2, st2)"
      by (cases "orchestrate_loop env workflow wi ctx order (execution, st)")
    from run_step_outputs[OF r i] orchestrate_loop_outputs[OF l i] r l
    show "outputs_only_completed
          (fst (snd (run_step env workflow wi ctx sid (execution, st)))) \<and>
        outputs_only_completed
          (fst (snd (orchestrate_loop env workflow wi ctx order (execution, st))))"
      by simp
  qed
  from c1 c2 c3 c4 c5 show ?thesis by (intro conjI)
qed


theorem resolve_step_output_reference_witness:
  "template_reached ''see {{input.k}}: '' \<and>
   lookup_path
     (PDict [(''q'', PList [PInt 1,
               PDict [(''t'', PStr (''see {{input.k}}: '' @ ''{{steps.a.output.x}}'' @ ''!''))]])])
     [Key ''q'', Index 1, Key ''t'']
     = Some (PStr (''see {{input.k}}: '' @ ''{{steps.a.output.x}}'' @ ''!'')) \<and>
   lookup_path
     (resolve_references (env_of outcomes3)
        [(''q'', PList [PInt 1,
               PDict [(''t'', PStr (''see {{input.k}}: '' @ ''{{steps.a.output.x}}'' @ ''!''))]])]
        exec_a42 [(''k'', PInt 7)])
     [Key ''q'', Index 1, Key ''t'']
     = Some (PStr ''see 7: 42!'') \<and>
   lookup_path
     (resolve_references (env_of outcomes3)
        [(''q'', PList [PInt 1,
               PDict [(''t'', PStr (''see {{input.k}}: '' @ ''{{steps.a.output.x}}'' @ ''!''))]])]
        exec0 [(''k'', PInt 7)])
     [Key ''q'', Index 1, Key ''t'']
     = Some (PStr ''see 7: !'') \<and>
   lookup_path
     (resolve_references (env_of outcomes3)
        [(''q'', PList [PInt 1,
               PDict [(''t'', PStr (''see {{input.k}}: '' @ ''{{steps.a.output.x}}'' @ ''!''))]])]
        (exec_with [(''a'', mk_result ''a'' Failed None)]) [(''k'', PInt 7)])
     [Key ''q'', Index 1, Key ''t'']
     = Some (PStr ''see 7: !'') \<and>
   outputs_only_completed
     (fst (snd (run_step
                  (env_of (\<lambda>_. Returned (result_of FAILED [(''x'', PStr ''42'')] (Some ''bad''))))
                  (mk_workflow [mk_step ''a'' TASK []] Continue) [(''k'', PInt 7)] ctx0 ''a''
                  (exec0, orch0))))"
proof -
  let ?env = "env_of outcomes3"
  let ?wi = "[(''k'', PInt 7)]"
  let ?pre = "''see {{input.k}}: ''"
  let ?s = "?pre @ ''{{steps.a.output.x}}'' @ ''!''"
  let ?input = "[(''q'', PList [PInt 1, PDict [(''t'', PStr ?s)]])]"
  let ?path = "[Key ''q'', Index 1, Key ''t'']"
  let ?failed = "exec_with [(''a'', mk_result ''a'' Failed None)]"
  let ?env2 = "env_of (\<lambda>_. Returned (result_of FAILED [(''x'', PStr ''42'')] (Some ''bad'')))"
  let ?wf = "mk_workflow [mk_step ''a'' TASK []] Continue"
  have tr: "template_reached ?pre"
    by (simp add: template_reached_def after_last_close_def)
  have lp: "lookup_path (PDict ?input) ?path = Some (PStr ?s)" by simp
  have m: "map_of (step_results exec_a42) ''a''
             = Some (mk_result ''a'' Completed (Some [(''x'', PStr ''42'')])) \<and>
    sr_output (mk_result ''a'' Completed (Some [(''x'', PStr ''42'')])) = Some [(''x'', PStr ''42'')]"
    by (simp add: exec_a42_def exec_with_def mk_result_def)
  have n: "map_of (step_results exec0) ''a'' = None" by (simp add: exec0_def)
  have fl: "outputs_only_completed ?failed \<and>
      (\<exists>r'. map_of (step_results ?failed) ''a'' = Some r' \<and> sr_status r' \<noteq> Completed)"
    by (simp add: outputs_only_completed_def exec_with_def exec0_def mk_result_def)
  have e0: "step_results exec0 = []" by (simp add: exec0_def)
  have pre: "\<And>ex. re_sub (replacer ?env ex ?wi) ?pre = ''see 7: ''"
    by (simp add: re_sub.simps(2) match_template_def starts_with_def replacer_def strip_def
        is_space_def str_int_def digits.simps[of 7])
  have post: "\<And>ex. re_sub (replacer ?env ex ?wi) ''!'' = ''!''"
    by (simp add: re_sub.simps(2) match_template_def starts_with_def)
  note T1 = resolve_step_output_reference[OF tr lp,
      where execution = exec_a42 and env = ?env and wi = ?wi
        and r = "mk_result ''a'' Completed (Some [(''x'', PStr ''42'')])"]
  from T1[THEN conjunct1, THEN mp, OF m]
  have w1: "lookup_path (resolve_references ?env ?input exec_a42 ?wi) ?path
              = Some (PStr ''see 7: 42!'')"
    unfolding pre post by simp
  note T2 = resolve_step_output_reference[OF tr lp,
      where execution = exec0 and env = ?env and wi = ?wi]
  from T2[THEN conjunct2, THEN conjunct1, THEN mp, OF disjI1, OF n]
  have w2: "lookup_path (resolve_references ?env ?input exec0 ?wi) ?path
              = Some (PStr ''see 7: !'')"
    unfolding pre post by simp
  note T3 = resolve_step_output_reference[OF tr lp,
      where execution = ?failed and env = ?env and wi = ?wi]
  from T3[THEN conjunct2, THEN conjunct2, THEN conjunct1, THEN mp, OF fl]
  have w3: "lookup_path (resolve_references ?env ?input ?failed ?wi) ?path
              = Some (PStr ''see 7: !'')"
    unfolding pre post by simp
  note T4 = resolve_step_output_reference[OF tr lp,
      where execution = exec0 and env = ?env2 and wi = ?wi and workflow = ?wf and ctx = ctx0
        and sid = "''a''" and st = orch0]
  from T4[THEN conjunct2, THEN conjunct2, THEN conjunct2, THEN conjunct1, THEN mp, OF e0]
  have i0: "outputs_only_completed exec0" .
  from T4[THEN conjunct2, THEN conjunct2, THEN conjunct2, THEN conjunct2, THEN mp, OF i0,
      THEN conjunct1]
  have w4: "outputs_only_completed
     (fst (snd (run_step ?env2 ?wf ?wi ctx0 ''a'' (exec0, orch0))))" .
  from tr lp w1 w2 w3 w4 show ?thesis by (intro conjI)
qed

lemma dropWhile_all: "list_all P xs \<Longrightarrow> dropWhile P (xs @ ys) = dropWhile P ys"
  by (induction xs) auto

lemma strip_padded:
  assumes "list_all is_space wl" "list_all is_space wr" "ref \<noteq> []"
    "\<not> is_space (hd ref)" "\<not> is_space (last ref)"
  shows "strip (wl @ ref @ wr) = ref"
proof -
  have 1: "dropWhile is_space (wl @ ref @ wr) = ref @ wr"
    using assms(1,3,4) by (cases ref) (simp_all add: dropWhile_all)
  have "list_all is_space (rev wr)" using assms(2) by (simp add: list_all_iff)
  then have 2: "dropWhile is_space (rev wr @ rev ref) = dropWhile is_space (rev ref)"
    by (rule dropWhile_all)
  obtain y ys where r: "rev ref = y # ys" using assms(3) by (cases "rev ref") simp_all
  then have "ref = rev ys @ [y]" by (simp add: rev_swap)
  then have "last ref = y" by simp
  with assms(5) r have 3: "dropWhile is_space (rev ref) = rev ref" by simp
  show ?thesis by (simp add: strip_def 1 2 3)
qed

lemma split_on_no_sep: "c \<notin> set x \<Longrightarrow> split_on c x = [x]"
  by (induction x) auto

lemma split_on_sep:
  "c \<notin> set x \<Longrightarrow> split_on c (x @ c # rest) = x # split_on c rest"
  by (induction x) auto

lemma split_on_segments:
  "c \<notin> set x \<Longrightarrow> \<forall>k\<in>set keys. c \<notin> set k \<Longrightarrow>
   split_on c (x @ concat (map (\<lambda>k. c # k) keys)) = x # keys"
proof (induction keys arbitrary: x)
  case Nil
  then show ?case by (simp add: split_on_no_sep)
next
  case (Cons k keys)
  have "split_on c (x @ c # (k @ concat (map (\<lambda>k. c # k) keys)))
          = x # split_on c (k @ concat (map (\<lambda>k. c # k) keys))"
    by (rule split_on_sep[OF Cons.prems(1)])
  also have "split_on c (k @ concat (map (\<lambda>k. c # k) keys)) = k # keys"
    using Cons.prems(2) by (intro Cons.IH) simp_all
  finally show ?case by simp
qed

lemma split_on_step_reference:
  assumes "CHR ''.'' \<notin> set sid" "\<forall>k\<in>set keys. CHR ''.'' \<notin> set k"
  shows "split_on CHR ''.'' (''steps.'' @ sid @ ''.output'' @ concat (map (\<lambda>k. CHR ''.'' # k) keys))
           = ''steps'' # sid # ''output'' # keys"
proof -
  let ?t = "concat (map (\<lambda>k. CHR ''.'' # k) keys)"
  have a: "split_on CHR ''.'' (''output'' @ ?t) = ''output'' # keys"
    using assms(2) by (intro split_on_segments) simp_all
  have b: "split_on CHR ''.'' (sid @ CHR ''.'' # (''output'' @ ?t))
             = sid # split_on CHR ''.'' (''output'' @ ?t)"
    by (rule split_on_sep[OF assms(1)])
  have c: "split_on CHR ''.'' (''steps'' @ CHR ''.'' # (sid @ CHR ''.'' # (''output'' @ ?t)))
             = ''steps'' # split_on CHR ''.'' (sid @ CHR ''.'' # (''output'' @ ?t))"
    by (rule split_on_sep) simp
  have "''steps.'' @ sid @ ''.output'' @ ?t
          = ''steps'' @ CHR ''.'' # (sid @ CHR ''.'' # (''output'' @ ?t))" by simp
  then show ?thesis by (simp only: c b a)
qed

lemma strict_walk_navigate:
  "strict_walk v ks = Some w \<Longrightarrow> navigate v ks = w"
  by (induction v ks rule: strict_walk.induct) (auto split: option.splits)

lemma replacer_step_reference:
  assumes ws: "list_all is_space wl" "list_all is_space wr"
    and ref: "ref = ''steps.'' @ sid @ ''.output'' @ concat (map (\<lambda>k. CHR ''.'' # k) keys)"
    and nd: "CHR ''.'' \<notin> set sid" "\<forall>k\<in>set keys. CHR ''.'' \<notin> set k"
    and l: "\<not> is_space (last ref)"
    and m: "map_of (step_results execution) sid = Some r"
    and o: "sr_output r = Some out"
    and w: "strict_walk (PDict out) keys = Some v"
  shows "replacer env execution wi (wl @ ref @ wr) = (if truthy v then py_str env v else [])"
proof -
  have ne: "ref \<noteq> []" and h: "\<not> is_space (hd ref)"
    by (simp_all add: ref is_space_def)
  have s: "strip (wl @ ref @ wr) = ref"
    by (rule strip_padded[OF ws ne h l])
  have sw: "starts_with ''steps.'' ref" "\<not> starts_with ''input.'' ref"
    by (simp_all add: ref starts_with_def)
  have sp: "split_on CHR ''.'' ref = ''steps'' # sid # ''output'' # keys"
    unfolding ref by (rule split_on_step_reference[OF nd])
  have n: "navigate (PDict out) keys = v" by (rule strict_walk_navigate[OF w])
  have e: "out = [] \<Longrightarrow> \<not> truthy v"
    using w by (cases keys) auto
  show ?thesis
    unfolding replacer_def s Let_def using sw sp m o n e by auto
qed

text \<open>
  C10. Let the template \<open>{{ steps.ID.output.K1. ... .Kn }}\<close>, with or without white space
  around the reference, stand in a text at some place of the step input, reached by the
  search (\<open>template_reached pre\<close>); the step \<open>ID\<close> has a recorded result with an output, and
  the walk through that output along the keys succeeds and ends in \<open>v\<close>. In what
  \<open>_resolve_references\<close> returns, the text at that place has the template replaced by the
  empty text when \<open>v\<close> is falsy and by \<open>str(v)\<close> when \<open>v\<close> is truthy. Zero, \<open>False\<close>, the empty
  text, the empty list, the empty dict and \<open>None\<close> are falsy.
\<close>

theorem falsy_reference_resolves_empty:
  "template_reached pre \<Longrightarrow>
   list_all is_space wl \<Longrightarrow> list_all is_space wr \<Longrightarrow>
   ref = ''steps.'' @ sid @ ''.output'' @ concat (map (\<lambda>k. CHR ''.'' # k) keys) \<Longrightarrow>
   CHR ''.'' \<notin> set sid \<Longrightarrow> \<forall>k\<in>set keys. CHR ''.'' \<notin> set k \<Longrightarrow>
   \<not> is_space (last ref) \<Longrightarrow>
   body = wl @ ref @ wr \<Longrightarrow>
   CHR ''}'' \<notin> set body \<Longrightarrow>
   map_of (step_results execution) sid = Some r \<Longrightarrow>
   sr_output r = Some out \<Longrightarrow>
   strict_walk (PDict out) keys = Some v \<Longrightarrow>
   lookup_path (PDict input) path = Some (PStr (pre @ ''{{'' @ body @ ''}}'' @ post)) \<Longrightarrow>
   lookup_path (resolve_references env input execution wi) path
     = Some (PStr (re_sub (replacer env execution wi) pre
                   @ (if truthy v then py_str env v else [])
                   @ re_sub (replacer env execution wi) post)) \<and>
   (\<not> truthy v \<longrightarrow>
      replacer env execution wi body = [] \<and>
      lookup_path (resolve_references env input execution wi) path
        = Some (PStr (re_sub (replacer env execution wi) pre
                      @ re_sub (replacer env execution wi) post))) \<and>
   (truthy v \<longrightarrow> replacer env execution wi body = py_str env v) \<and>
   (v \<in> set [PInt 0, PBool False, PStr [], PList [], PDict [], PNone] \<longrightarrow> \<not> truthy v)"
proof -
  assume tr: "template_reached pre"
    and ws: "list_all is_space wl" "list_all is_space wr"
    and ref: "ref = ''steps.'' @ sid @ ''.output'' @ concat (map (\<lambda>k. CHR ''.'' # k) keys)"
    and nd: "CHR ''.'' \<notin> set sid" "\<forall>k\<in>set keys. CHR ''.'' \<notin> set k"
    and l: "\<not> is_space (last ref)"
    and body: "body = wl @ ref @ wr"
    and nb: "CHR ''}'' \<notin> set body"
    and m: "map_of (step_results execution) sid = Some r"
    and o: "sr_output r = Some out"
    and w: "strict_walk (PDict out) keys = Some v"
    and lp: "lookup_path (PDict input) path = Some (PStr (pre @ ''{{'' @ body @ ''}}'' @ post))"
  let ?f = "replacer env execution wi"
  let ?L = "lookup_path (resolve_references env input execution wi) path"
  have rp: "?f body = (if truthy v then py_str env v else [])"
    unfolding body by (rule replacer_step_reference[OF ws ref nd l m o w])
  have bne: "body \<noteq> []" by (simp add: body ref)
  have rs: "re_sub ?f (pre @ ''{{'' @ body @ ''}}'' @ post)
              = re_sub ?f pre @ ?f body @ re_sub ?f post"
    by (rule re_sub_reaches_template[OF tr bne nb])
  have e: "?L = Some (PStr (re_sub ?f pre @ ?f body @ re_sub ?f post))"
    using resolve_references_path[OF lp, of env execution wi] by (simp only: rs)
  have c1: "?L = Some (PStr (re_sub ?f pre @ (if truthy v then py_str env v else [])
                   @ re_sub ?f post))"
    unfolding e rp ..
  have c2: "\<not> truthy v \<longrightarrow> ?f body = [] \<and> ?L = Some (PStr (re_sub ?f pre @ re_sub ?f post))"
    using c1 rp by simp
  have c3: "truthy v \<longrightarrow> ?f body = py_str env v" using rp by simp
  have c4: "v \<in> set [PInt 0, PBool False, PStr [], PList [], PDict [], PNone] \<longrightarrow> \<not> truthy v"
    by auto
  from c1 c2 c3 c4 show ?thesis by (intro conjI)
qed

theorem falsy_reference_resolves_empty_witness:
  "lookup_path (resolve_references (env_of outcomes3) input_falsy exec_falsy [])
     [Key ''f'', Index 0] = Some (PStr ''n=;'') \<and>
   lookup_path (resolve_references (env_of outcomes3) input_falsy exec_falsy [])
     [Key ''f'', Index 1] = Some (PStr []) \<and>
   lookup_path (resolve_references (env_of outcomes3) input_falsy exec_falsy [])
     [Key ''f'', Index 2] = Some (PStr []) \<and>
   lookup_path (resolve_references (env_of outcomes3) input_falsy exec_falsy [])
     [Key ''f'', Index 3] = Some (PStr []) \<and>
   lookup_path (resolve_references (env_of outcomes3) input_falsy exec_falsy [])
     [Key ''f'', Index 4] = Some (PStr []) \<and>
   lookup_path (resolve_references (env_of outcomes3) input_falsy exec_falsy [])
     [Key ''f'', Index 5] = Some (PStr ''5'') \<and>
   lookup_path (resolve_references (env_of outcomes3) input_falsy exec_falsy [])
     [Key ''f'', Index 6] = Some (PStr []) \<and>
   replacer (env_of outcomes3) exec_falsy [] ''steps.a.output.n'' = [] \<and>
   replacer (env_of outcomes3) exec_falsy [] (''steps.a.output.m'' @ [CHR 0xA0]) = ''5'' \<and>
   \<not> truthy (PInt 0)"
proof -
  let ?env = "env_of outcomes3"
  let ?out = "[(''n'', PInt 0), (''b'', PBool False), (''s'', PStr []), (''l'', PList []),
               (''d'', PDict [(''z'', PInt 0), (''e'', PDict [])]), (''m'', PInt 5)]"
  let ?r = "mk_result ''a'' Completed (Some ?out)"
  let ?f = "replacer ?env exec_falsy []"
  let ?L = "\<lambda>i. lookup_path (resolve_references ?env input_falsy exec_falsy []) [Key ''f'', Index i]"
  have m: "map_of (step_results exec_falsy) ''a'' = Some ?r"
    by (simp add: exec_falsy_def exec_with_def)
  have o: "sr_output ?r = Some ?out" by (simp add: mk_result_def)
  have r0: "re_sub ?f [] = []" "re_sub ?f ''n='' = ''n=''" "re_sub ?f '';'' = '';''"
    by (simp_all add: re_sub.simps(2) match_template_def starts_with_def)
  note defs = template_reached_def after_last_close_def is_space_def input_falsy_def
  note T0 = falsy_reference_resolves_empty[where pre = "''n=''" and wl = "[]" and wr = "[]"
      and sid = "''a''" and keys = "[''n'']" and ref = "''steps.a.output.n''" and body = "[] @ ''steps.a.output.n'' @ []"
      and execution = exec_falsy and r = "?r" and out = "?out" and v = "PInt 0"
      and input = input_falsy and path = "[Key ''f'', Index 0]" and post = "'';''"
      and env = "?env" and wi = "[]"]
  have h0: "?L 0 = Some (PStr (re_sub ?f ''n='' @ (if truthy (PInt 0) then py_str ?env (PInt 0) else [])
                                 @ re_sub ?f '';''))"
    by (rule T0[THEN conjunct1]) (simp_all add: defs m o)
  have w0: "?L 0 = Some (PStr ''n=;'')"
    unfolding h0 r0 by (simp add: str_int_def digits.simps[of 5])
  note T1 = falsy_reference_resolves_empty[where pre = "[]" and wl = "'' ''" and wr = "'' ''"
      and sid = "''a''" and keys = "[''b'']" and ref = "''steps.a.output.b''" and body = "'' '' @ ''steps.a.output.b'' @ '' ''"
      and execution = exec_falsy and r = "?r" and out = "?out" and v = "PBool False"
      and input = input_falsy and path = "[Key ''f'', Index 1]" and post = "[]"
      and env = "?env" and wi = "[]"]
  have h1: "?L 1 = Some (PStr (re_sub ?f [] @ (if truthy (PBool False) then py_str ?env (PBool False) else [])
                                 @ re_sub ?f []))"
    by (rule T1[THEN conjunct1]) (simp_all add: defs m o)
  have w1: "?L 1 = Some (PStr [])"
    unfolding h1 r0 by (simp add: str_int_def digits.simps[of 5])
  note T2 = falsy_reference_resolves_empty[where pre = "[]" and wl = "[]" and wr = "[]"
      and sid = "''a''" and keys = "[''s'']" and ref = "''steps.a.output.s''" and body = "[] @ ''steps.a.output.s'' @ []"
      and execution = exec_falsy and r = "?r" and out = "?out" and v = "PStr []"
      and input = input_falsy and path = "[Key ''f'', Index 2]" and post = "[]"
      and env = "?env" and wi = "[]"]
  have h2: "?L 2 = Some (PStr (re_sub ?f [] @ (if truthy (PStr []) then py_str ?env (PStr []) else [])
                                 @ re_sub ?f []))"
    by (rule T2[THEN conjunct1]) (simp_all add: defs m o)
  have w2: "?L 2 = Some (PStr [])"
    unfolding h2 r0 by (simp add: str_int_def digits.simps[of 5])
  note T3 = falsy_reference_resolves_empty[where pre = "[]" and wl = "[]" and wr = "[]"
      and sid = "''a''" and keys = "[''l'']" and ref = "''steps.a.output.l''" and body = "[] @ ''steps.a.output.l'' @ []"
      and execution = exec_falsy and r = "?r" and out = "?out" and v = "PList []"
      and input = input_falsy and path = "[Key ''f'', Index 3]" and post = "[]"
      and env = "?env" and wi = "[]"]
  have h3: "?L 3 = Some (PStr (re_sub ?f [] @ (if truthy (PList []) then py_str ?env (PList []) else [])
                                 @ re_sub ?f []))"
    by (rule T3[THEN conjunct1]) (simp_all add: defs m o)
  have w3: "?L 3 = Some (PStr [])"
    unfolding h3 r0 by (simp add: str_int_def digits.simps[of 5])
  note T4 = falsy_reference_resolves_empty[where pre = "[]" and wl = "[]" and wr = "[]"
      and sid = "''a''" and keys = "[''d'', ''e'']" and ref = "''steps.a.output.d.e''" and body = "[] @ ''steps.a.output.d.e'' @ []"
      and execution = exec_falsy and r = "?r" and out = "?out" and v = "PDict []"
      and input = input_falsy and path = "[Key ''f'', Index 4]" and post = "[]"
      and env = "?env" and wi = "[]"]
  have h4: "?L 4 = Some (PStr (re_sub ?f [] @ (if truthy (PDict []) then py_str ?env (PDict []) else [])
                                 @ re_sub ?f []))"
    by (rule T4[THEN conjunct1]) (simp_all add: defs m o)
  have w4: "?L 4 = Some (PStr [])"
    unfolding h4 r0 by (simp add: str_int_def digits.simps[of 5])
  note T5 = falsy_reference_resolves_empty[where pre = "[]" and wl = "[]" and wr = "[CHR 0xA0]"
      and sid = "''a''" and keys = "[''m'']" and ref = "''steps.a.output.m''" and body = "[] @ ''steps.a.output.m'' @ [CHR 0xA0]"
      and execution = exec_falsy and r = "?r" and out = "?out" and v = "PInt 5"
      and input = input_falsy and path = "[Key ''f'', Index 5]" and post = "[]"
      and env = "?env" and wi = "[]"]
  have h5: "?L 5 = Some (PStr (re_sub ?f [] @ (if truthy (PInt 5) then py_str ?env (PInt 5) else [])
                                 @ re_sub ?f []))"
    by (rule T5[THEN conjunct1]) (simp_all add: defs m o)
  have w5: "?L 5 = Some (PStr ''5'')"
    unfolding h5 r0 by (simp add: str_int_def digits.simps[of 5])
  have me: "map_of (step_results exec_falsy) ''e'' = Some (mk_result ''e'' Completed (Some []))"
    by (simp add: exec_falsy_def exec_with_def)
  have oe: "sr_output (mk_result ''e'' Completed (Some [])) = Some []"
    by (simp add: mk_result_def)
  note T6 = falsy_reference_resolves_empty[where pre = "[]" and wl = "[]" and wr = "[]"
      and sid = "''e''" and keys = "[]" and ref = "''steps.e.output''"
      and body = "[] @ ''steps.e.output'' @ []"
      and execution = exec_falsy and r = "mk_result ''e'' Completed (Some [])" and out = "[]"
      and v = "PDict []"
      and input = input_falsy and path = "[Key ''f'', Index 6]" and post = "[]"
      and env = "?env" and wi = "[]"]
  have h6: "?L 6 = Some (PStr (re_sub ?f [] @ (if truthy (PDict []) then py_str ?env (PDict []) else [])
                                 @ re_sub ?f []))"
    by (rule T6[THEN conjunct1]) (simp_all add: defs me oe)
  have w8: "?L 6 = Some (PStr [])"
    unfolding h6 r0 by simp
  have f0: "\<not> truthy (PInt 0)"
    by (rule T0[THEN conjunct2, THEN conjunct2, THEN conjunct2, THEN mp])
       (simp_all add: defs m o)
  have "?f ([] @ ''steps.a.output.n'' @ []) = [] \<and>
        ?L 0 = Some (PStr (re_sub ?f ''n='' @ re_sub ?f '';''))"
    by (rule T0[THEN conjunct2, THEN conjunct1, THEN mp]) (simp_all add: defs m o)
  then have w6: "?f ''steps.a.output.n'' = []" by simp
  have "?f ([] @ ''steps.a.output.m'' @ [CHR 0xA0]) = py_str ?env (PInt 5)"
    by (rule T5[THEN conjunct2, THEN conjunct2, THEN conjunct1, THEN mp])
       (simp_all add: defs m o)
  then have w7: "?f (''steps.a.output.m'' @ [CHR 0xA0]) = ''5''"
    by (simp add: str_int_def digits.simps[of 5])
  from w0 w1 w2 w3 w4 w5 w8 w6 w7 f0 show ?thesis by (intro conjI)
qed


section \<open>Topological order\<close>

lemma graph_from_distinct: "distinct (map fst g) \<Longrightarrow> distinct (map fst (graph_from g steps))"
  unfolding graph_from_def by (induction steps arbitrary: g) (auto simp: distinct_update)

lemma graph_from_keys: "fst ` set (graph_from g steps) = fst ` set g \<union> ws_id ` set steps"
  unfolding graph_from_def by (induction steps arbitrary: g) (auto simp: dom_update)

lemma alength_update:
  "length (AList.update k v al) = (if k \<in> fst ` set al then length al else Suc (length al))"
  by (induction al) auto

lemma graph_from_length: "length (graph_from g steps) \<le> length g + length steps"
  unfolding graph_from_def
proof (induction steps arbitrary: g)
  case Nil then show ?case by simp
next
  case (Cons s steps)
  have "length (AList.update (ws_id s) (depends_on s) g) \<le> Suc (length g)"
    by (simp add: alength_update)
  with Cons[of "AList.update (ws_id s) (depends_on s) g"] show ?case by simp
qed

lemma graph_from_length_eq:
  "length (graph_from g steps) = length g + length steps \<Longrightarrow>
     distinct (map ws_id steps) \<and> ws_id ` set steps \<inter> fst ` set g = {}"
proof (induction steps arbitrary: g)
  case Nil then show ?case by simp
next
  case (Cons s steps)
  let ?g1 = "AList.update (ws_id s) (depends_on s) g"
  have gf: "graph_from g (s # steps) = graph_from ?g1 steps" by (simp add: graph_from_def)
  have le: "length (graph_from ?g1 steps) \<le> length ?g1 + length steps"
    by (rule graph_from_length)
  have l1: "length ?g1 \<le> Suc (length g)" by (simp add: alength_update)
  from Cons.prems gf le l1 have e1: "length ?g1 = Suc (length g)"
    and e2: "length (graph_from ?g1 steps) = length ?g1 + length steps" by simp_all
  from e1 have nk: "ws_id s \<notin> fst ` set g" by (simp add: alength_update split: if_splits)
  from Cons.IH[OF e2] have d: "distinct (map ws_id steps)"
    and i: "ws_id ` set steps \<inter> fst ` set ?g1 = {}" by simp_all
  from i have "ws_id s \<notin> ws_id ` set steps" and "ws_id ` set steps \<inter> fst ` set g = {}"
    by (auto simp: dom_update)
  with d nk show ?case by auto
qed

lemma graph_from_map_of:
  "distinct (map ws_id steps) \<Longrightarrow> s \<in> set steps \<Longrightarrow>
     map_of (graph_from g steps) (ws_id s) = Some (depends_on s)"
  unfolding graph_from_def
proof (induction steps arbitrary: g)
  case Nil then show ?case by simp
next
  case (Cons t steps)
  let ?g1 = "AList.update (ws_id t) (depends_on t) g"
  show ?case
  proof (cases "s \<in> set steps")
    case True
    with Cons show ?thesis by simp
  next
    case False
    with Cons.prems have st: "s = t" by simp
    have keep: "\<And>g. ws_id t \<notin> ws_id ` set steps \<Longrightarrow>
        map_of (fold (\<lambda>s g. AList.update (ws_id s) (depends_on s) g) steps g) (ws_id t)
          = map_of g (ws_id t)"
      by (induction steps) (auto simp: update_conv')
    from Cons.prems have "ws_id t \<notin> ws_id ` set steps" by auto
    from keep[OF this, of ?g1] st show ?thesis by (simp add: update_conv')
  qed
qed

lemma in_degree_of_graph:
  "in_degree_of steps = map (\<lambda>(k, deps). (k, int (length deps))) (graph_of steps)"
proof -
  have upd: "\<And>k v al. map (\<lambda>(k, deps). (k, int (length deps))) (AList.update k v al)
               = AList.update k (int (length v)) (map (\<lambda>(k, deps). (k, int (length deps))) al)"
    subgoal for k v al by (induction al) auto
    done
  have "\<And>g. fold (\<lambda>s g. AList.update (ws_id s) (int (length (depends_on s))) g) steps
               (map (\<lambda>(k, deps). (k, int (length deps))) g)
            = map (\<lambda>(k, deps). (k, int (length deps)))
                (fold (\<lambda>s g. AList.update (ws_id s) (depends_on s) g) steps g)"
    by (induction steps) (simp_all add: upd[symmetric])
  from this[of "[]"] show ?thesis by (simp add: in_degree_of_def graph_of_def)
qed

lemma dependents_Nil: "dependents c [] = {}"
  by (simp add: dependents_def)

lemma dependents_Cons:
  "dependents c ((k, deps) # rest) = (if c \<in> set deps then {k} else {}) \<union> dependents c rest"
  by (auto simp: dependents_def)

lemma dependents_keys: "dependents c items \<subseteq> fst ` set items"
  by (force simp: dependents_def)

lemma relax_keys:
  "relax c items (ind, q) = (ind', q') \<Longrightarrow> map fst ind' = map fst ind"
proof (induction items arbitrary: ind q)
  case Nil
  then show ?case by simp
next
  case (Cons item rest)
  obtain k deps where item: "item = (k, deps)" by (cases item)
  have upd: "\<And>d v. map_of ind k = Some d \<Longrightarrow> map fst (AList.update k v ind) = map fst ind"
    by (auto simp: update_keys dest!: map_of_SomeD intro: rev_image_eqI)
  show ?case
  proof (cases "c \<in> set deps")
    case False
    with Cons.prems item have "relax c rest (ind, q) = (ind', q')" by simp
    from Cons.IH[OF this] show ?thesis .
  next
    case True
    show ?thesis
    proof (cases "map_of ind k")
      case None
      with True Cons.prems item have "relax c rest (ind, q) = (ind', q')" by simp
      from Cons.IH[OF this] show ?thesis .
    next
      case (Some d)
      show ?thesis
      proof (cases "d - 1 = 0")
        case z: True
        with True Some Cons.prems item
        have "relax c rest (AList.update k (d - 1) ind, q @ [k]) = (ind', q')" by simp
        from Cons.IH[OF this] upd[OF Some] show ?thesis by simp
      next
        case z: False
        with True Some Cons.prems item
        have "relax c rest (AList.update k (d - 1) ind, q) = (ind', q')" by simp
        from Cons.IH[OF this] upd[OF Some] show ?thesis by simp
      qed
    qed
  qed
qed

lemma relax_spec:
  "distinct (map fst items) \<Longrightarrow> relax c items (ind, q) = (ind', q') \<Longrightarrow>
     (\<forall>k. map_of ind' k = (if k \<in> dependents c items then map_option (\<lambda>d. d - 1) (map_of ind k)
                              else map_of ind k))
     \<and> (\<exists>new. q' = q @ new \<and> distinct new \<and>
              set new = {k \<in> dependents c items. map_of ind k = Some 1})"
proof (induction items arbitrary: ind q)
  case Nil
  then show ?case by (simp add: dependents_Nil)
next
  case (Cons item rest)
  obtain k deps where item: "item = (k, deps)" by (cases item)
  from Cons.prems(1) item have dr: "distinct (map fst rest)" and kr: "k \<notin> fst ` set rest"
    by auto
  from kr dependents_keys[of c rest] have kh: "k \<notin> dependents c rest" by auto
  note hc = dependents_Cons[of c k deps rest]
  show ?case
  proof (cases "c \<in> set deps")
    case False
    with Cons.prems item have "relax c rest (ind, q) = (ind', q')" by simp
    from Cons.IH[OF dr this] False show ?thesis unfolding item hc by simp
  next
    case True
    show ?thesis
    proof (cases "map_of ind k")
      case None
      with True Cons.prems item have r: "relax c rest (ind, q) = (ind', q')" by simp
      note ih = Cons.IH[OF dr r]
      from ih have m: "\<forall>k'. map_of ind' k' = (if k' \<in> dependents c rest
              then map_option (\<lambda>d. d - 1) (map_of ind k') else map_of ind k')" by blast
      from ih obtain new where n: "q' = q @ new" "distinct new"
        "set new = {k' \<in> dependents c rest. map_of ind k' = Some 1}" by blast
      have m': "\<forall>k'. map_of ind' k' = (if k' \<in> dependents c (item # rest)
              then map_option (\<lambda>d. d - 1) (map_of ind k') else map_of ind k')"
        using m None True kh unfolding item hc by auto
      have s': "set new = {k' \<in> dependents c (item # rest). map_of ind k' = Some 1}"
        using n(3) None True unfolding item hc by auto
      from m' n(1,2) s' show ?thesis by blast
    next
      case (Some d)
      let ?ind1 = "AList.update k (d - 1) ind"
      have m1: "\<And>k'. map_of ?ind1 k' = (if k' = k then Some (d - 1) else map_of ind k')"
        by (simp add: update_conv')
      show ?thesis
      proof (cases "d - 1 = 0")
        case z: True
        then have d1: "d = 1" by simp
        from z True Some Cons.prems item
        have r: "relax c rest (?ind1, q @ [k]) = (ind', q')" by simp
        note ih = Cons.IH[OF dr r]
        from ih have m: "\<forall>k'. map_of ind' k' = (if k' \<in> dependents c rest
              then map_option (\<lambda>d. d - 1) (map_of ?ind1 k') else map_of ?ind1 k')" by blast
        from ih obtain new where n: "q' = (q @ [k]) @ new" "distinct new"
          "set new = {k' \<in> dependents c rest. map_of ?ind1 k' = Some 1}" by blast
        have m': "\<forall>k'. map_of ind' k' = (if k' \<in> dependents c (item # rest)
              then map_option (\<lambda>d. d - 1) (map_of ind k') else map_of ind k')"
          using m Some True kh unfolding item hc by (auto simp: m1)
        have kn: "k \<notin> set new" using n(3) kh by simp
        have h1: "\<And>x. x \<in> dependents c (item # rest) \<longleftrightarrow> x = k \<or> x \<in> dependents c rest"
          unfolding item hc using True by simp
        have px: "\<And>x. x \<in> set (k # new) \<longleftrightarrow>
                    x \<in> dependents c (item # rest) \<and> map_of ind x = Some 1"
        proof -
          fix x
          show "x \<in> set (k # new) \<longleftrightarrow>
                    x \<in> dependents c (item # rest) \<and> map_of ind x = Some 1"
          proof (cases "x = k")
            case True
            then show ?thesis by (simp add: h1 Some d1)
          next
            case False
            then show ?thesis by (simp add: n(3) h1 m1)
          qed
        qed
        have s': "set (k # new) = {k' \<in> dependents c (item # rest). map_of ind k' = Some 1}"
          by (rule set_eqI) (simp only: px mem_Collect_eq)
        have "q' = q @ (k # new)" using n(1) by simp
        moreover have "distinct (k # new)" using n(2) kn by simp
        ultimately show ?thesis using m' s' by blast
      next
        case z: False
        then have d1: "d \<noteq> 1" by simp
        from z True Some Cons.prems item
        have r: "relax c rest (?ind1, q) = (ind', q')" by simp
        note ih = Cons.IH[OF dr r]
        from ih have m: "\<forall>k'. map_of ind' k' = (if k' \<in> dependents c rest
              then map_option (\<lambda>d. d - 1) (map_of ?ind1 k') else map_of ?ind1 k')" by blast
        from ih obtain new where n: "q' = q @ new" "distinct new"
          "set new = {k' \<in> dependents c rest. map_of ?ind1 k' = Some 1}" by blast
        have m': "\<forall>k'. map_of ind' k' = (if k' \<in> dependents c (item # rest)
              then map_option (\<lambda>d. d - 1) (map_of ind k') else map_of ind k')"
          using m Some True kh unfolding item hc by (auto simp: m1)
        have h1: "\<And>x. x \<in> dependents c (item # rest) \<longleftrightarrow> x = k \<or> x \<in> dependents c rest"
          unfolding item hc using True by simp
        have px: "\<And>x. x \<in> set new \<longleftrightarrow>
                    x \<in> dependents c (item # rest) \<and> map_of ind x = Some 1"
        proof -
          fix x
          show "x \<in> set new \<longleftrightarrow>
                    x \<in> dependents c (item # rest) \<and> map_of ind x = Some 1"
          proof (cases "x = k")
            case True
            then show ?thesis using kh by (simp add: n(3) h1 Some d1)
          next
            case False
            then show ?thesis by (simp add: n(3) h1 m1)
          qed
        qed
        have s': "set new = {k' \<in> dependents c (item # rest). map_of ind k' = Some 1}"
          by (rule set_eqI) (simp only: px mem_Collect_eq)
        from m' n(1,2) s' show ?thesis by blast
      qed
    qed
  qed
qed

lemma dependents_dp:
  "distinct (map fst g) \<Longrightarrow> k \<in> dependents c g \<longleftrightarrow> k \<in> fst ` set g \<and> c \<in> set (deps_of g k)"
proof
  assume d: "distinct (map fst g)" and "k \<in> dependents c g"
  then obtain ds where "(k, ds) \<in> set g" "c \<in> set ds" by (auto simp: dependents_def)
  with d have "map_of g k = Some ds" by simp
  with \<open>(k, ds) \<in> set g\<close> \<open>c \<in> set ds\<close> show "k \<in> fst ` set g \<and> c \<in> set (deps_of g k)"
    by (force simp: deps_of_def)
next
  assume d: "distinct (map fst g)" and h: "k \<in> fst ` set g \<and> c \<in> set (deps_of g k)"
  then obtain ds where m: "map_of g k = Some ds"
    by (cases "map_of g k") (auto simp: deps_of_def)
  with h have "c \<in> set ds" by (simp add: deps_of_def)
  moreover from m have "(k, ds) \<in> set g" by (rule map_of_SomeD)
  ultimately show "k \<in> dependents c g" by (auto simp: dependents_def)
qed

lemma all_deps_seen:
  "int (length ds) - int (card (set ds \<inter> R)) = 0 \<Longrightarrow> set ds \<subseteq> R"
proof -
  assume "int (length ds) - int (card (set ds \<inter> R)) = 0"
  then have e: "card (set ds \<inter> R) = length ds" by simp
  have "card (set ds \<inter> R) \<le> card (set ds)" by (simp add: card_mono)
  moreover have "card (set ds) \<le> length ds" by (rule card_length)
  ultimately have "card (set ds \<inter> R) = card (set ds)" using e by simp
  then have "set ds \<inter> R = set ds" by (intro card_subset_eq) auto
  then show ?thesis by blast
qed

lemma all_deps_seen_conv:
  "distinct ds \<Longrightarrow> set ds \<subseteq> R \<Longrightarrow> int (length ds) - int (card (set ds \<inter> R)) = 0"
proof -
  assume d: "distinct ds" and s: "set ds \<subseteq> R"
  from s have "set ds \<inter> R = set ds" by blast
  with d show ?thesis by (simp add: distinct_card)
qed

lemma card_inter_snoc:
  "c \<notin> set res \<Longrightarrow>
     int (card (D \<inter> set (res @ [c]))) = int (card (D \<inter> set res)) + (if c \<in> D then 1 else 0)"
proof (cases "c \<in> D")
  case True
  assume n: "c \<notin> set res"
  from True have "D \<inter> set (res @ [c]) = insert c (D \<inter> set res)" by auto
  moreover have "c \<notin> D \<inter> set res" using n by simp
  moreover have "finite (D \<inter> set res)" by simp
  ultimately show ?thesis using True by simp
next
  case False
  then have "D \<inter> set (res @ [c]) = D \<inter> set res" by auto
  with False show ?thesis by simp
qed

lemma deps_first_snoc:
  "deps_first g res \<Longrightarrow> set (deps_of g c) \<subseteq> set res \<Longrightarrow> deps_first g (res @ [c])"
  unfolding deps_first_def
proof (intro allI impI)
  fix pre k post
  assume o: "\<forall>pre k post. res = pre @ k # post \<longrightarrow> set (deps_of g k) \<subseteq> set pre"
    and s: "set (deps_of g c) \<subseteq> set res" and e: "res @ [c] = pre @ k # post"
  show "set (deps_of g k) \<subseteq> set pre"
  proof (cases post rule: rev_cases)
    case Nil
    with e have "res = pre" "k = c" by simp_all
    with s show ?thesis by simp
  next
    case (snoc post' x)
    with e have "res = pre @ k # post'" by simp
    with o show ?thesis by blast
  qed
qed

lemma kahn_step:
  assumes d: "distinct (map fst g)" and inv: "kahn_inv g ind (c # q) res"
    and r: "relax c g (ind, q) = (ind', q')"
  shows "kahn_inv g ind' q' (res @ [c])"
proof -
  let ?K = "fst ` set g"
  from inv have dist: "distinct (res @ c # q)" and sub: "set (res @ c # q) \<subseteq> ?K"
    and deg: "\<And>k. k \<in> ?K \<Longrightarrow> map_of ind k
                = Some (int (length (deps_of g k)) - int (card (set (deps_of g k) \<inter> set res)))"
    and zero: "\<And>k. k \<in> ?K \<Longrightarrow> k \<in> set (res @ c # q) \<longleftrightarrow> map_of ind k = Some 0"
    and ord: "deps_first g res"
    unfolding kahn_inv_def by blast+
  from dist have cres: "c \<notin> set res" and cq: "c \<notin> set q" by auto
  from sub have cK: "c \<in> ?K" by simp
  from relax_spec[OF d r] obtain new where
    m: "\<And>k. map_of ind' k = (if k \<in> dependents c g then map_option (\<lambda>d. d - 1) (map_of ind k)
                              else map_of ind k)"
    and q': "q' = q @ new" and dn: "distinct new"
    and sn: "set new = {k \<in> dependents c g. map_of ind k = Some 1}"
    by blast
  note hd = dependents_dp[OF d]
  \<comment> \<open>the dequeued id has all its dependencies in the result\<close>
  have cdeps: "set (deps_of g c) \<subseteq> set res"
  proof -
    from zero[OF cK] have "map_of ind c = Some 0" by simp
    with deg[OF cK] have "int (length (deps_of g c)) - int (card (set (deps_of g c) \<inter> set res)) = 0"
      by simp
    then show ?thesis by (rule all_deps_seen)
  qed
  \<comment> \<open>a dependent of the dequeued id is not yet in the result or the queue\<close>
  have notyet: "k \<notin> set (res @ c # q)" if "k \<in> dependents c g" for k
  proof
    assume "k \<in> set (res @ c # q)"
    from that hd have kK: "k \<in> ?K" and cd: "c \<in> set (deps_of g k)" by auto
    from zero[OF kK] \<open>k \<in> set (res @ c # q)\<close> have "map_of ind k = Some 0" by simp
    with deg[OF kK] have "int (length (deps_of g k)) - int (card (set (deps_of g k) \<inter> set res)) = 0"
      by simp
    then have "set (deps_of g k) \<subseteq> set res" by (rule all_deps_seen)
    with cd cres show False by auto
  qed
  have deg': "map_of ind' k
          = Some (int (length (deps_of g k)) - int (card (set (deps_of g k) \<inter> set (res @ [c]))))"
    if kK: "k \<in> ?K" for k
  proof (cases "k \<in> dependents c g")
    case True
    with hd have "c \<in> set (deps_of g k)" by simp
    with card_inter_snoc[OF cres, of "set (deps_of g k)"] m[of k] True deg[OF kK]
    show ?thesis by simp
  next
    case False
    with hd kK have "c \<notin> set (deps_of g k)" by simp
    with card_inter_snoc[OF cres, of "set (deps_of g k)"] m[of k] False deg[OF kK]
    show ?thesis by simp
  qed
  have zero': "k \<in> set ((res @ [c]) @ q') \<longleftrightarrow> map_of ind' k = Some 0" if kK: "k \<in> ?K" for k
  proof (cases "k \<in> dependents c g")
    case True
    from notyet[OF True] have a: "k \<notin> set (res @ c # q)" .
    with zero[OF kK] have nz: "map_of ind k \<noteq> Some 0" by simp
    from deg[OF kK] obtain i where i: "map_of ind k = Some i" by blast
    have "k \<in> set ((res @ [c]) @ q') \<longleftrightarrow> k \<in> set new" using a q' by auto
    also have "\<dots> \<longleftrightarrow> i = 1" using sn True i by simp
    also have "\<dots> \<longleftrightarrow> map_of ind' k = Some 0" using m[of k] True i by auto
    finally show ?thesis .
  next
    case False
    then have "k \<notin> set new" using sn by simp
    then have "k \<in> set ((res @ [c]) @ q') \<longleftrightarrow> k \<in> set (res @ c # q)" using q' by auto
    also have "\<dots> \<longleftrightarrow> map_of ind k = Some 0" by (rule zero[OF kK])
    also have "\<dots> \<longleftrightarrow> map_of ind' k = Some 0" using m[of k] False by simp
    finally show ?thesis .
  qed
  have newK: "set new \<subseteq> ?K" using sn hd by auto
  have disj: "set new \<inter> set (res @ c # q) = {}" using sn notyet by auto
  have dist': "distinct ((res @ [c]) @ q')"
    using dist dn disj unfolding q' by auto
  have sub': "set ((res @ [c]) @ q') \<subseteq> ?K"
    using sub newK unfolding q' by auto
  have ord': "deps_first g (res @ [c])" by (rule deps_first_snoc[OF ord cdeps])
  show ?thesis
    unfolding kahn_inv_def using dist' sub' deg' zero' ord' by blast
qed

lemma kahn_loop_inv_pair:
  "distinct (map fst g) \<Longrightarrow> kahn_inv g (fst s) (snd s) res \<Longrightarrow>
     \<exists>ind'. kahn_inv g ind' [] (kahn_loop g s res)"
proof (induction g s res rule: kahn_loop.induct)
  case (1 graph in_degree result)
  then show ?case by auto
next
  case (2 graph in_degree current queue result)
  obtain i' q' where r: "relax current graph (in_degree, queue) = (i', q')"
    by (cases "relax current graph (in_degree, queue)")
  from "2.prems" have "kahn_inv graph in_degree (current # queue) result" by simp
  from kahn_step[OF "2.prems"(1) this r]
  have "kahn_inv graph (fst (relax current graph (in_degree, queue)))
          (snd (relax current graph (in_degree, queue))) (result @ [current])"
    by (simp add: r)
  from "2.IH"[OF "2.prems"(1) this] show ?case by simp
qed

lemma kahn_loop_inv:
  "distinct (map fst g) \<Longrightarrow> kahn_inv g ind q res \<Longrightarrow>
     \<exists>ind'. kahn_inv g ind' [] (kahn_loop g (ind, q) res)"
  using kahn_loop_inv_pair[of g "(ind, q)" res] by simp

lemma graph_of_from: "graph_of steps = graph_from [] steps"
  by (simp add: graph_of_def graph_from_def)

lemma graph_of_distinct: "distinct (map fst (graph_of steps))"
  by (simp add: graph_of_from graph_from_distinct)

lemma graph_of_keys: "fst ` set (graph_of steps) = ws_id ` set steps"
  by (simp add: graph_of_from graph_from_keys)

lemma graph_of_card: "card (ws_id ` set steps) = length (graph_of steps)"
proof -
  have "card (set (map fst (graph_of steps))) = length (map fst (graph_of steps))"
    by (rule distinct_card[OF graph_of_distinct])
  then show ?thesis by (simp add: graph_of_keys)
qed

lemma kahn_initial:
  "kahn_inv (graph_of steps) (in_degree_of steps)
     (map fst (filter (\<lambda>(sid, degree). degree = 0) (in_degree_of steps))) []"
proof -
  let ?g = "graph_of steps"
  let ?ind = "in_degree_of steps"
  let ?q = "map fst (filter (\<lambda>(sid, degree). degree = 0) ?ind)"
  have ind: "?ind = map (\<lambda>(k, deps). (k, int (length deps))) ?g"
    by (rule in_degree_of_graph)
  have keys: "map fst ?ind = map fst ?g"
    unfolding ind by (simp add: case_prod_beta comp_def)
  have dk: "distinct (map fst ?ind)" unfolding keys by (rule graph_of_distinct)
  have mo: "map_of ?ind k = map_option (\<lambda>ds. int (length ds)) (map_of ?g k)" for k
    unfolding ind by (simp add: map_of_map)
  have dq: "distinct ?q" using dk by (rule distinct_map_filter)
  have sq: "set ?q \<subseteq> fst ` set ?g"
  proof -
    have "set ?q \<subseteq> set (map fst ?ind)" by auto
    then show ?thesis unfolding keys by simp
  qed
  have deg: "map_of ?ind k = Some (int (length (deps_of ?g k)) - int (card (set (deps_of ?g k) \<inter> set [])))"
    if "k \<in> fst ` set ?g" for k
  proof -
    from that obtain ds where "map_of ?g k = Some ds"
      by (cases "map_of ?g k") (auto simp: map_of_eq_None_iff)
    then show ?thesis by (simp add: mo deps_of_def)
  qed
  have zero: "k \<in> set ([] @ ?q) \<longleftrightarrow> map_of ?ind k = Some 0" for k
  proof
    assume "k \<in> set ([] @ ?q)"
    then have "(k, 0) \<in> set ?ind" by auto
    with dk show "map_of ?ind k = Some 0" by simp
  next
    assume "map_of ?ind k = Some 0"
    then have "(k, 0) \<in> set ?ind" by (rule map_of_SomeD)
    then have "(k, 0) \<in> set (filter (\<lambda>(sid, degree). degree = 0) ?ind)" by simp
    then have "fst (k, 0::int) \<in> set ?q" unfolding set_map by (rule imageI)
    then show "k \<in> set ([] @ ?q)" by simp
  qed
  have o: "deps_first ?g []" by (simp add: deps_first_def)
  show ?thesis
    unfolding kahn_inv_def
  proof (intro conjI ballI)
    show "distinct ([] @ ?q)" using dq by simp
    show "set ([] @ ?q) \<subseteq> fst ` set ?g" using sq by simp
    show "deps_first ?g []" by (rule o)
  next
    fix k assume "k \<in> fst ` set ?g"
    then show "map_of ?ind k = Some (int (length (deps_of ?g k)) - int (card (set (deps_of ?g k) \<inter> set [])))"
      by (rule deg)
  next
    fix k show "k \<in> set ([] @ ?q) \<longleftrightarrow> map_of ?ind k = Some 0" by (rule zero)
  qed
qed

lemma kahn_result:
  "\<exists>ind'. kahn_inv (graph_of steps) ind' []
     (kahn_loop (graph_of steps)
        (in_degree_of steps, map fst (filter (\<lambda>(sid, degree). degree = 0) (in_degree_of steps))) [])"
  by (rule kahn_loop_inv[OF graph_of_distinct kahn_initial])

lemma topological_sort_cases:
  "topological_sort steps =
     (let result = kahn_loop (graph_of steps)
        (in_degree_of steps, map fst (filter (\<lambda>(sid, degree). degree = 0) (in_degree_of steps))) []
      in if length result \<noteq> length steps
         then Inl (ValueError ''Circular dependency detected in workflow steps'')
         else Inr result)"
  by (simp add: topological_sort_def Let_def)

lemma topological_sort_sound:
  assumes "topological_sort steps = Inr order"
  shows "distinct order \<and> set order = ws_id ` set steps \<and> length order = length steps \<and>
         distinct (map ws_id steps) \<and>
         (\<forall>s \<in> set steps. \<forall>d \<in> set (depends_on s). comes_after order (ws_id s) d)"
proof -
  let ?g = "graph_of steps"
  let ?K = "ws_id ` set steps"
  define res where "res = kahn_loop ?g
        (in_degree_of steps, map fst (filter (\<lambda>(sid, degree). degree = 0) (in_degree_of steps))) []"
  have ts: "topological_sort steps =
     (if length res \<noteq> length steps
      then Inl (ValueError ''Circular dependency detected in workflow steps'') else Inr res)"
    by (simp only: topological_sort_cases Let_def res_def)
  have len: "length res = length steps"
  proof (rule ccontr)
    assume "length res \<noteq> length steps"
    with ts assms show False by simp
  qed
  with ts assms have eq: "res = order" by simp
  from kahn_result[of steps] obtain ind' where inv: "kahn_inv ?g ind' [] res"
    unfolding res_def ..
  from inv have d0: "distinct (res @ [])" and sub0: "set (res @ []) \<subseteq> fst ` set ?g"
    and ord: "deps_first ?g res"
    unfolding kahn_inv_def by blast+
  from d0 have d: "distinct res" by simp
  from sub0 have sub: "set res \<subseteq> ?K" by (simp add: graph_of_keys)
  have c1: "card (set res) = length res" using d by (rule distinct_card)
  have c2: "card (set res) \<le> card ?K" by (rule card_mono[OF _ sub]) simp
  have c3: "length ?g \<le> length steps"
    using graph_from_length[of "[]" steps] by (simp add: graph_of_from)
  have c4: "card ?K = length ?g" by (rule graph_of_card)
  from c1 c2 c3 c4 len have lg: "length ?g = length steps" and ce: "card (set res) = card ?K"
    by linarith+
  have se: "set res = ?K" by (rule card_subset_eq[OF _ sub ce]) simp
  have "length (graph_from [] steps) = length [] + length steps"
    using lg by (simp add: graph_of_from)
  from graph_from_length_eq[OF this] have di: "distinct (map ws_id steps)" by blast
  have after: "comes_after res (ws_id s) d" if s: "s \<in> set steps" and dd: "d \<in> set (depends_on s)"
    for s d
  proof -
    from s se have "ws_id s \<in> set res" by blast
    from split_list[OF this] obtain pre post where sp: "res = pre @ ws_id s # post" by blast
    with ord have p: "set (deps_of ?g (ws_id s)) \<subseteq> set pre" unfolding deps_first_def by blast
    have "map_of ?g (ws_id s) = Some (depends_on s)"
      using graph_from_map_of[OF di s, of "[]"] by (simp add: graph_of_from)
    then have "deps_of ?g (ws_id s) = depends_on s" by (simp add: deps_of_def)
    then have "depends_on s = deps_of ?g (ws_id s)" by simp
    with dd have "d \<in> set (deps_of ?g (ws_id s))" by simp
    with p have "d \<in> set pre" by (rule subsetD)
    with sp show ?thesis unfolding comes_after_def by blast
  qed
  show ?thesis
    unfolding eq[symmetric] using d se len di after by blast
qed

lemma order_acyclic:
  assumes d: "distinct order"
    and a: "\<And>x y. (x, y) \<in> E \<Longrightarrow> comes_after order y x"
  shows "acyclic E"
proof -
  let ?rank = "\<lambda>k. length (takeWhile (\<lambda>y. y \<noteq> k) order)"
  have "E \<subseteq> measure ?rank"
  proof
    fix p assume p: "p \<in> E"
    obtain x y where xy: "p = (x, y)" by (cases p)
    from a p xy obtain pre post where o: "order = pre @ y # post" and x: "x \<in> set pre"
      unfolding comes_after_def by blast
    from d o have yn: "y \<notin> set pre" by auto
    have ry: "?rank y = length pre"
      unfolding o using yn by (subst takeWhile_append2) auto
    have tx: "takeWhile (\<lambda>z. z \<noteq> x) order = takeWhile (\<lambda>z. z \<noteq> x) pre"
      unfolding o using x by (intro takeWhile_append1[of x]) auto
    have "takeWhile (\<lambda>z. z \<noteq> x) pre \<noteq> pre"
      using x by (auto simp: takeWhile_eq_all_conv)
    moreover have "length (takeWhile (\<lambda>z. z \<noteq> x) pre) \<le> length pre"
      by (rule length_takeWhile_le)
    moreover have "length (takeWhile (\<lambda>z. z \<noteq> x) pre) = length pre
                    \<Longrightarrow> takeWhile (\<lambda>z. z \<noteq> x) pre = pre"
      by (metis append_eq_conv_conj takeWhile_dropWhile_id take_all order_refl)
    ultimately have "length (takeWhile (\<lambda>z. z \<noteq> x) pre) < length pre"
      by (cases "length (takeWhile (\<lambda>z. z \<noteq> x) pre) = length pre") auto
    with ry tx show "p \<in> measure ?rank" by (simp add: xy)
  qed
  then have "wf E" by (rule wf_subset[OF wf_measure])
  then show ?thesis by (rule wf_acyclic)
qed

lemma topological_sort_cycle:
  assumes "\<not> acyclic (dependency_edges steps)"
  shows "topological_sort steps = Inl (ValueError ''Circular dependency detected in workflow steps'')"
proof (rule ccontr)
  assume "topological_sort steps \<noteq> Inl (ValueError ''Circular dependency detected in workflow steps'')"
  then obtain order where o: "topological_sort steps = Inr order"
    by (auto simp: topological_sort_cases Let_def split: if_splits)
  note s = topological_sort_sound[OF o]
  have "acyclic (dependency_edges steps)"
  proof (rule order_acyclic[of order])
    show "distinct order" using s by simp
  next
    fix x y assume "(x, y) \<in> dependency_edges steps"
    then show "comes_after order y x" using s by (auto simp: dependency_edges_def)
  qed
  with assms show False by simp
qed

lemma topological_sort_complete:
  assumes di: "distinct (map ws_id steps)"
    and dd: "\<And>s. s \<in> set steps \<Longrightarrow> distinct (depends_on s)"
    and ds: "\<And>s. s \<in> set steps \<Longrightarrow> set (depends_on s) \<subseteq> ws_id ` set steps"
    and ac: "acyclic (dependency_edges steps)"
  shows "\<exists>order. topological_sort steps = Inr order"
proof -
  let ?g = "graph_of steps"
  let ?K = "ws_id ` set steps"
  let ?E = "dependency_edges steps"
  let ?res = "kahn_loop ?g
        (in_degree_of steps, map fst (filter (\<lambda>(sid, degree). degree = 0) (in_degree_of steps))) []"
  from kahn_result[of steps] obtain ind' where inv: "kahn_inv ?g ind' [] ?res" by blast
  from inv have d: "distinct ?res" and sub: "set ?res \<subseteq> ?K"
    and deg: "\<And>k. k \<in> ?K \<Longrightarrow> map_of ind' k
                = Some (int (length (deps_of ?g k)) - int (card (set (deps_of ?g k) \<inter> set ?res)))"
    and zero: "\<And>k. k \<in> ?K \<Longrightarrow> k \<in> set ?res \<longleftrightarrow> map_of ind' k = Some 0"
    unfolding kahn_inv_def graph_of_keys by auto
  have dps: "deps_of ?g (ws_id s) = depends_on s" if "s \<in> set steps" for s
    using graph_from_map_of[OF di that, of "[]"] by (simp add: deps_of_def graph_of_from)
  have fin: "finite ?E"
  proof (rule finite_subset)
    show "?E \<subseteq> ?K \<times> ?K" using ds by (auto simp: dependency_edges_def)
    show "finite (?K \<times> ?K)" by simp
  qed
  have wf: "wf ?E" by (rule finite_acyclic_wf[OF fin ac])
  have all: "?K \<subseteq> set ?res"
  proof (rule ccontr)
    assume "\<not> ?K \<subseteq> set ?res"
    then obtain x where "x \<in> ?K - set ?res" by blast
    from wfE_min[OF wf this] obtain z where z: "z \<in> ?K - set ?res"
      and mn: "\<And>y. (y, z) \<in> ?E \<Longrightarrow> y \<notin> ?K - set ?res" by blast
    from z obtain s where s: "s \<in> set steps" "z = ws_id s" by auto
    have "set (depends_on s) \<subseteq> set ?res"
    proof
      fix y assume y: "y \<in> set (depends_on s)"
      with s have "(y, z) \<in> ?E" by (auto simp: dependency_edges_def)
      from mn[OF this] ds[OF s(1)] y show "y \<in> set ?res" by auto
    qed
    with dd[OF s(1)] have "int (length (depends_on s)) - int (card (set (depends_on s) \<inter> set ?res)) = 0"
      by (rule all_deps_seen_conv)
    with deg[of z] z s dps[OF s(1)] have "map_of ind' z = Some 0" by simp
    with zero[of z] z show False by simp
  qed
  with sub have se: "set ?res = ?K" by blast
  have "length ?res = card (set ?res)" using d by (simp add: distinct_card)
  also have "\<dots> = card ?K" by (simp only: se)
  also have "\<dots> = length steps"
    using distinct_card[OF di] by simp
  finally have "length ?res = length steps" .
  then show ?thesis by (simp add: topological_sort_cases Let_def)
qed


text \<open>
  The ordering on the whole: whenever \<open>_topological_sort\<close> returns an order, the step ids
  are unique and the order holds each of them once, every step after all its
  dependencies (\<open>topological_sort_sound\<close>); a cycle among the edges makes it raise
  (\<open>topological_sort_cycle\<close>); and for unique step ids whose dependency lists are free of
  repetitions, name step ids only and form no cycle, it returns an order
  (\<open>topological_sort_complete\<close>).
\<close>

lemma dependency_edges_alt:
  "dependency_edges steps = (\<Union>s\<in>set steps. (\<lambda>d. (d, ws_id s)) ` set (depends_on s))"
  by (auto simp: dependency_edges_def)

lemma topological_sort_example:
  "topological_sort [mk_step ''a'' TASK [], mk_step ''b'' TASK [''a''],
                     mk_step ''c'' TASK [''a'', ''b'']]
     = Inr [''a'', ''b'', ''c'']"
  by (simp add: topological_sort_def graph_of_def in_degree_of_def mk_step_def Let_def)

lemma orchestrate_rejects_cycle:
  assumes "\<not> acyclic (dependency_edges (wd_steps (oreq_workflow request)))"
  shows "fst (orchestrate env st request ctx)
           = \<lparr>execution_id = uuid4 env (uuids_drawn st), ores_status = Failed, ores_results = [],
              ores_error = Some ''Circular dependency detected in workflow steps''\<rparr>
         \<and> exec_log (snd (orchestrate env st request ctx)) = exec_log st"
  using topological_sort_cycle[OF assms]
  by (simp add: orchestrate_def orchestrate_body_def draw_uuid_def Let_def)

text \<open>
  C1. The claim holds for dependency lists without repetitions (above), but not for every
  workflow whose edges form a DAG: with step \<open>a\<close> and a step \<open>b\<close> whose \<open>depends_on\<close> is
  \<open>[a, a]\<close> the only edge is from \<open>a\<close> to \<open>b\<close>, and \<open>_topological_sort\<close> raises the
  circular-dependency error. The in-degree is the length of the list, 2, and the dequeued
  \<open>a\<close> lowers it once. With \<open>depends_on = [a]\<close> the order is \<open>[a, b]\<close>.
\<close>

theorem topological_sort_duplicate_dependency:
  "topological_sort [mk_step ''a'' TASK [], mk_step ''b'' TASK [''a'', ''a'']]
     = Inl (ValueError ''Circular dependency detected in workflow steps'')
   \<and> acyclic (dependency_edges [mk_step ''a'' TASK [], mk_step ''b'' TASK [''a'', ''a'']])
   \<and> distinct (map ws_id [mk_step ''a'' TASK [], mk_step ''b'' TASK [''a'', ''a'']])
   \<and> topological_sort [mk_step ''a'' TASK [], mk_step ''b'' TASK [''a'']] = Inr [''a'', ''b'']"
proof -
  have e: "dependency_edges [mk_step ''a'' TASK [], mk_step ''b'' TASK [''a'', ''a'']]
             = {(''a'', ''b'')}"
    by (simp add: dependency_edges_alt mk_step_def)
  have a0: "acyclic ({} :: (string \<times> string) set)"
    by (simp add: acyclic_def)
  have a: "acyclic {(''a'', ''b'')}"
    by (simp add: acyclic_insert a0)
  have t1: "topological_sort [mk_step ''a'' TASK [], mk_step ''b'' TASK [''a'', ''a'']]
     = Inl (ValueError ''Circular dependency detected in workflow steps'')"
    by (simp add: topological_sort_def graph_of_def in_degree_of_def mk_step_def Let_def)
  have t2: "topological_sort [mk_step ''a'' TASK [], mk_step ''b'' TASK [''a'']] = Inr [''a'', ''b'']"
    by (simp add: topological_sort_def graph_of_def in_degree_of_def mk_step_def Let_def)
  have d: "distinct (map ws_id [mk_step ''a'' TASK [], mk_step ''b'' TASK [''a'', ''a'']])"
    by (simp add: mk_step_def)
  from t1 a d t2 show ?thesis unfolding e by blast
qed

end
